theory Spec2Isabelle
  imports Complex_Main "HOL-Library.Word"
begin

unbundle bit_operations_syntax

chapter \<open>A shallow embedding of the c-lbs-1 load balancer\<close>

text \<open>
  The development follows the C sources chapter by chapter: the selection policies of
  \<^verbatim>\<open>advanced_lb.c\<close> and \<^verbatim>\<open>pooled_lb.c\<close>, the session callbacks of
  \<^verbatim>\<open>pooled_lb.c\<close>, the \<^verbatim>\<open>select()\<close> reactor of \<^verbatim>\<open>event_loop_select.c\<close>, the
  connection pool of \<^verbatim>\<open>conn_pool.c\<close> and the rate limiter of \<^verbatim>\<open>rate_limiter.c\<close>.

  Conventions. A C array together with its element count is a list; a pointer into such
  an array is the index of the element, \<open>NULL\<close> is \<open>None\<close>. C \<^verbatim>\<open>int\<close>, \<^verbatim>\<open>long\<close> and
  \<^verbatim>\<open>time_t\<close> values are \<open>int\<close>. Where the program adds, subtracts or multiplies
  weights, connection counts or request counts, the two's-complement wrap-around of the
  machine is written out; indices, descriptors and readings of the clock stay far from
  the ends of their range. C's truncating division and its trap on a zero divisor are
  written out. \<^verbatim>\<open>unsigned int\<close> and \<^verbatim>\<open>unsigned long\<close> are 32-bit and 64-bit words, a
  \<^verbatim>\<open>char\<close> is signed, a \<^verbatim>\<open>double\<close> is an IEEE-754 binary64 value with its rounding, its
  infinities and NaN. System calls are inputs (what the kernel answered) and outputs (a
  trace of the calls made).
\<close>

section \<open>C arithmetic and strings\<close>

datatype error = DivisionByZero | OutOfBounds | NullPointer | BufferOverrun

text \<open>C's \<^verbatim>\<open>/\<close> and \<^verbatim>\<open>%\<close> on \<^verbatim>\<open>int\<close> truncate towards zero and trap on a zero divisor.\<close>

definition c_div :: "int \<Rightarrow> int \<Rightarrow> error + int" where
  "c_div a b = (if b = 0 then Inl DivisionByZero else Inr (sgn a * sgn b * (\<bar>a\<bar> div \<bar>b\<bar>)))"

definition c_mod :: "int \<Rightarrow> int \<Rightarrow> error + int" where
  "c_mod a b = (if b = 0 then Inl DivisionByZero else Inr (sgn a * (\<bar>a\<bar> mod \<bar>b\<bar>)))"

text \<open>
  Overflow of a signed addition, subtraction or multiplication wraps in two's
  complement, as the compiled program has it: \<open>wrap32\<close> for \<^verbatim>\<open>int\<close>, \<open>wrap64\<close> for
  \<^verbatim>\<open>long\<close>.
\<close>

definition wrap32 :: "int \<Rightarrow> int" where
  "wrap32 x = (x + 2147483648) mod 4294967296 - 2147483648"

definition wrap64 :: "int \<Rightarrow> int" where
  "wrap64 x = (x + 9223372036854775808) mod 18446744073709551616 - 9223372036854775808"

text \<open>
  A \<^verbatim>\<open>char\<close> is signed: a byte of 128 or more is a negative number when it enters an
  arithmetic expression.
\<close>

definition c_char :: "char \<Rightarrow> int" where
  "c_char c = (if (of_char c :: nat) < 128 then int (of_char c) else int (of_char c) - 256)"

text \<open>
  A C string is the list of its characters before the terminating NUL.
  \<open>strstr hay needle\<close> holds when \<^verbatim>\<open>strstr(hay, needle)\<close> is not \<open>NULL\<close>: the bytes are
  compared as they are.
\<close>

fun is_prefix :: "string \<Rightarrow> string \<Rightarrow> bool" where
  "is_prefix [] hay = True"
| "is_prefix (n # ns) [] = False"
| "is_prefix (n # ns) (h # hs) = (n = h \<and> is_prefix ns hs)"

fun strstr :: "string \<Rightarrow> string \<Rightarrow> bool" where
  "strstr [] needle = (needle = [])"
| "strstr (h # hs) needle = (is_prefix needle (h # hs) \<or> strstr hs needle)"



section \<open>Backends and selection policies (advanced\_lb.c, pooled\_lb.c)\<close>

datatype Algorithm =
  ALG_ROUND_ROBIN | ALG_WEIGHTED_ROUND_ROBIN | ALG_LEAST_CONNECTIONS | ALG_IP_HASH

record Backend =
  host :: string
  port :: string
  weight :: int
  current_weight :: int
  is_healthy :: bool
  active_connections :: int
  total_requests :: "64 word"
  failed_requests :: "64 word"
  bytes_in :: "64 word"
  bytes_out :: "64 word"
  last_health_check :: int

text \<open>
  A session slot of \<^verbatim>\<open>pooled_lb.c\<close>. \<open>backend\<close> points into the roster, \<open>next_free\<close>
  is the \<^verbatim>\<open>next\<close> pointer of the slot free list.
\<close>

record Connection =
  client_fd :: int
  backend_fd :: int
  backend :: "nat option"
  client_ip :: string
  request_forwarded :: bool
  keep_alive :: bool
  start_time :: int
  next_free :: "nat option"

text \<open>
  The roster \<^verbatim>\<open>backends[0 .. num_backends)\<close> is the list \<open>backends\<close>; \<open>num_backends\<close>
  is its length.
\<close>

record LoadBalancer =
  backends :: "Backend list"
  current_index :: int
  algorithm :: Algorithm
  connections :: "Connection list"
  free_list :: "nat option"
  num_connections :: int
  lb_total_requests :: "64 word"

definition num_backends :: "LoadBalancer \<Rightarrow> int" where
  "num_backends lb = int (length (backends lb))"

text \<open>
  \<^verbatim>\<open>parse_backend\<close>, behind the three calls of \<^verbatim>\<open>strtok\<close>: \<^verbatim>\<open>strncpy\<close> keeps at most 255
  bytes of the host and 5 of the port; the weight is the third field of
  \<^verbatim>\<open>host:port:weight\<close>, 1 when it is absent, and raised to 1 when below; a new backend
  is healthy with current weight 0.
\<close>

definition parse_backend :: "string \<Rightarrow> string \<Rightarrow> int option \<Rightarrow> Backend" where
  "parse_backend h p weight_str =
     (let w = (case weight_str of Some v \<Rightarrow> v | None \<Rightarrow> 1) in
      \<lparr>host = take 255 h, port = take 5 p, weight = (if w < 1 then 1 else w),
       current_weight = 0,
       is_healthy = True, active_connections = 0, total_requests = 0,
       failed_requests = 0, bytes_in = 0, bytes_out = 0, last_health_check = 0\<rparr>)"

subsection \<open>Round robin\<close>

text \<open>
  The \<^verbatim>\<open>do ... while (attempts < num_backends)\<close> loop of \<^verbatim>\<open>select_round_robin\<close>; the
  result is the index of the chosen backend and the balancer with its rolling index
  advanced.
\<close>

function rr_loop :: "LoadBalancer \<Rightarrow> int \<Rightarrow> int \<Rightarrow> error + (nat \<times> LoadBalancer)" where
  "rr_loop lb start attempts =
     (case c_mod (current_index lb + 1) (num_backends lb) of
        Inl e \<Rightarrow> Inl e
      | Inr ci \<Rightarrow>
          if ci < 0 \<or> num_backends lb \<le> ci then Inl OutOfBounds
          else if is_healthy (backends lb ! nat ci)
            then Inr (nat ci, lb\<lparr>current_index := ci\<rparr>)
          else if attempts + 1 < num_backends lb
            then rr_loop (lb\<lparr>current_index := ci\<rparr>) start (attempts + 1)
          else (case c_mod (start + 1) (num_backends lb) of
                  Inl e \<Rightarrow> Inl e
                | Inr k \<Rightarrow>
                    if k < 0 \<or> num_backends lb \<le> k then Inl OutOfBounds
                    else Inr (nat k, lb\<lparr>current_index := ci\<rparr>)))"
  by pat_completeness auto
termination
  by (relation "measure (\<lambda>(lb, start, attempts). nat (num_backends lb - attempts))")
    (auto simp: num_backends_def)

definition select_round_robin :: "LoadBalancer \<Rightarrow> error + (nat \<times> LoadBalancer)" where
  "select_round_robin lb = rr_loop lb (current_index lb) 0"

subsection \<open>Smooth weighted round robin\<close>

text \<open>
  One iteration of the \<^verbatim>\<open>for\<close> loop of \<^verbatim>\<open>select_weighted_round_robin\<close> at index \<open>i\<close>,
  on the state (roster, \<^verbatim>\<open>total_weight\<close>, \<^verbatim>\<open>best\<close>). \<^verbatim>\<open>current_weight\<close> and
  \<^verbatim>\<open>total_weight\<close> are of type \<^verbatim>\<open>int\<close>: the two additions and the subtraction wrap.
\<close>

definition wrr_body ::
  "nat \<Rightarrow> Backend list \<times> int \<times> nat option \<Rightarrow> Backend list \<times> int \<times> nat option" where
  "wrr_body i s =
     (case s of (bs, total_weight, best) \<Rightarrow>
        if \<not> is_healthy (bs ! i) then s
        else
          let bs' = bs[i := (bs ! i)\<lparr>current_weight :=
                                      wrap32 (current_weight (bs ! i) + weight (bs ! i))\<rparr>];
              total_weight' = wrap32 (total_weight + weight (bs ! i))
          in (bs', total_weight',
              (case best of
                 None \<Rightarrow> Some i
               | Some j \<Rightarrow>
                   if current_weight (bs' ! i) > current_weight (bs' ! j) then Some i
                   else Some j)))"

definition select_weighted_round_robin :: "LoadBalancer \<Rightarrow> error + (nat \<times> LoadBalancer)" where
  "select_weighted_round_robin lb =
     (case fold wrr_body [0..<length (backends lb)] (backends lb, 0, None) of
        (bs, total_weight, Some j) \<Rightarrow>
          Inr (j, lb\<lparr>backends :=
                    bs[j := (bs ! j)\<lparr>current_weight :=
                                      wrap32 (current_weight (bs ! j) - total_weight)\<rparr>]\<rparr>)
      | (bs, total_weight, None) \<Rightarrow> select_round_robin (lb\<lparr>backends := bs\<rparr>))"

text \<open>\<open>k\<close> consecutive selections; the indices chosen, in order, and the final state.\<close>

fun wrr_run :: "nat \<Rightarrow> LoadBalancer \<Rightarrow> error + (nat list \<times> LoadBalancer)" where
  "wrr_run 0 lb = Inr ([], lb)"
| "wrr_run (Suc k) lb =
     (case select_weighted_round_robin lb of
        Inl e \<Rightarrow> Inl e
      | Inr (j, lb') \<Rightarrow>
          (case wrr_run k lb' of
             Inl e \<Rightarrow> Inl e
           | Inr (js, lb'') \<Rightarrow> Inr (j # js, lb'')))"

text \<open>The healthy part of a roster and its total weight.\<close>

definition healthy_set :: "Backend list \<Rightarrow> nat set" where
  "healthy_set bs = {i. i < length bs \<and> is_healthy (bs ! i)}"

definition total_weight_of :: "Backend list \<Rightarrow> int" where
  "total_weight_of bs = (\<Sum>b\<leftarrow>filter is_healthy bs. weight b)"

subsection \<open>Least connections\<close>

definition INT_MAX :: int where
  "INT_MAX = 2147483647"

text \<open>
  The loop of \<^verbatim>\<open>select_least_connections\<close> over the rest of the roster, \<open>i\<close> being the
  index of its first element. The product \<^verbatim>\<open>active_connections * 100\<close> is an \<^verbatim>\<open>int\<close>
  and wraps.
\<close>

fun lc_loop :: "Backend list \<Rightarrow> nat \<Rightarrow> nat option \<Rightarrow> int \<Rightarrow> error + nat option" where
  "lc_loop [] i best min_score = Inr best"
| "lc_loop (b # bs) i best min_score =
     (if \<not> is_healthy b then lc_loop bs (Suc i) best min_score
      else (case c_div (wrap32 (active_connections b * 100)) (weight b) of
              Inl e \<Rightarrow> Inl e
            | Inr score \<Rightarrow>
                if score < min_score then lc_loop bs (Suc i) (Some i) score
                else lc_loop bs (Suc i) best min_score))"

definition select_least_connections :: "LoadBalancer \<Rightarrow> error + (nat \<times> LoadBalancer)" where
  "select_least_connections lb =
     (case lc_loop (backends lb) 0 None INT_MAX of
        Inl e \<Rightarrow> Inl e
      | Inr (Some j) \<Rightarrow> Inr (j, lb)
      | Inr None \<Rightarrow> select_round_robin lb)"

subsection \<open>IP hash\<close>

text \<open>
  \<^verbatim>\<open>hash = hash * 31 + *p\<close> on \<^verbatim>\<open>unsigned int\<close>; \<^verbatim>\<open>*p\<close> is a \<^verbatim>\<open>char\<close>, converted to
  \<^verbatim>\<open>unsigned int\<close> with its sign.
\<close>

definition ip_hash_value :: "string \<Rightarrow> 32 word" where
  "ip_hash_value s = fold (\<lambda>c h. h * 31 + of_int (c_char c)) s 0"

text \<open>
  The \<^verbatim>\<open>do ... while (index != start)\<close> scan. Both indices lie below the roster's
  length in the source (\<open>start\<close> is a remainder modulo it); the first two tests say so.
\<close>

lemma scan_offset_ge: "s \<le> i \<Longrightarrow> i < n \<Longrightarrow> (i + n - s) mod n = i - (s::nat)"
proof -
  assume a: "s \<le> i" "i < n"
  then have "i + n - s = (i - s) + n" by simp
  then have "(i + n - s) mod n = (i - s) mod n" by simp
  then show ?thesis using a by simp
qed

lemma scan_offset_lt: "i < s \<Longrightarrow> s < n \<Longrightarrow> (i + n - s) mod n = i + n - (s::nat)"
  by simp

lemma scan_measure:
  fixes i s n :: nat
  assumes "i < n" "s < n" "Suc i mod n \<noteq> s"
  shows "n - (Suc i mod n + n - s) mod n < n - (i + n - s) mod n"
proof (cases "Suc i < n")
  case True
  then have m: "Suc i mod n = Suc i" by simp
  show ?thesis
  proof (cases "s \<le> i")
    case True
    then show ?thesis
      using m assms scan_offset_ge[of s i n] scan_offset_ge[of s "Suc i" n] \<open>Suc i < n\<close>
      by simp
  next
    case False
    then have "Suc i < s" using assms m by simp
    then show ?thesis
      using m assms scan_offset_lt[of i s n] scan_offset_lt[of "Suc i" s n] by simp
  qed
next
  case False
  then have e: "Suc i = n" using assms by simp
  then have m: "Suc i mod n = 0" by simp
  then have "0 < s" using assms by simp
  then show ?thesis
    using m assms e scan_offset_ge[of s i n] scan_offset_lt[of 0 s n] by simp
qed

function ip_scan :: "Backend list \<Rightarrow> nat \<Rightarrow> nat \<Rightarrow> error + nat" where
  "ip_scan bs start index =
     (if length bs \<le> index \<or> length bs \<le> start then Inl OutOfBounds
      else if is_healthy (bs ! index) then Inr index
      else if (index + 1) mod length bs \<noteq> start
        then ip_scan bs start ((index + 1) mod length bs)
      else Inr start)"
  by pat_completeness auto
termination
  by (relation "measure (\<lambda>(bs, start, index). length bs - (index + length bs - start) mod length bs)")
    (auto simp: not_le intro: scan_measure)

definition select_ip_hash :: "LoadBalancer \<Rightarrow> string \<Rightarrow> error + (nat \<times> LoadBalancer)" where
  "select_ip_hash lb ip =
     (if backends lb = [] then Inl DivisionByZero
      else (case ip_scan (backends lb) (unat (ip_hash_value ip) mod length (backends lb))
                   (unat (ip_hash_value ip) mod length (backends lb)) of
              Inl e \<Rightarrow> Inl e
            | Inr j \<Rightarrow> Inr (j, lb)))"

definition select_backend :: "LoadBalancer \<Rightarrow> string \<Rightarrow> error + (nat \<times> LoadBalancer)" where
  "select_backend lb ip =
     (case algorithm lb of
        ALG_WEIGHTED_ROUND_ROBIN \<Rightarrow> select_weighted_round_robin lb
      | ALG_LEAST_CONNECTIONS \<Rightarrow> select_least_connections lb
      | ALG_IP_HASH \<Rightarrow> select_ip_hash lb ip
      | ALG_ROUND_ROBIN \<Rightarrow> select_round_robin lb)"

section \<open>Sessions and the byte relay (pooled\_lb.c)\<close>

definition EVENT_READ :: int where "EVENT_READ = 1"
definition EVENT_WRITE :: int where "EVENT_WRITE = 2"
definition EVENT_ERROR :: int where "EVENT_ERROR = 4"


text \<open>
  \<^verbatim>\<open>check_keep_alive\<close>: three \<^verbatim>\<open>strstr\<close> searches over the whole request, each for one
  fixed spelling.
\<close>

definition check_keep_alive :: "string \<Rightarrow> int" where
  "check_keep_alive request =
     (if strstr request ''HTTP/1.1'' then
        (if strstr request ''Connection: close'' then 0 else 1)
      else if strstr request ''Connection: keep-alive'' \<or>
              strstr request ''Connection: Keep-Alive'' then 1
      else 0)"











section \<open>The select() reactor (event\_loop\_select.c)\<close>

definition FD_SETSIZE :: int where "FD_SETSIZE = 1024"

text \<open>
  A registration. The callback is a function pointer: \<open>None\<close> is \<open>NULL\<close>, \<open>Some k\<close> the
  \<open>k\<close>-th callback of the program.
\<close>

record event_data_t =
  ev_fd :: int
  ev_events :: int
  user_data :: nat
  callback :: "nat option"

record event_loop =
  max_events :: int
  max_fd :: int
  fd_data :: "nat \<Rightarrow> event_data_t option"

definition event_loop_create :: "int \<Rightarrow> event_loop" where
  "event_loop_create n = \<lparr>max_events = FD_SETSIZE, max_fd = - 1, fd_data = (\<lambda>fd. None)\<rparr>"

text \<open>\<^verbatim>\<open>event_loop_add\<close>, where the allocation of the registration succeeds.\<close>

definition event_loop_add ::
  "event_loop \<Rightarrow> int \<Rightarrow> int \<Rightarrow> nat option \<Rightarrow> nat \<Rightarrow> event_loop \<times> int" where
  "event_loop_add loop fd events cb ud =
     (if fd < 0 \<or> fd \<ge> FD_SETSIZE then (loop, - 1)
      else (loop\<lparr>fd_data := (fd_data loop)(nat fd \<mapsto>
                    \<lparr>ev_fd = fd, ev_events = events, user_data = ud, callback = cb\<rparr>),
                 max_fd := (if fd > max_fd loop then fd else max_fd loop)\<rparr>, 0))"

text \<open>The downward search of \<^verbatim>\<open>event_loop_del\<close> for the new \<^verbatim>\<open>max_fd\<close>, from \<open>n - 1\<close>.\<close>

fun max_fd_below :: "(nat \<Rightarrow> event_data_t option) \<Rightarrow> nat \<Rightarrow> int" where
  "max_fd_below tab 0 = - 1"
| "max_fd_below tab (Suc i) = (if tab i \<noteq> None then int i else max_fd_below tab i)"

definition event_loop_del :: "event_loop \<Rightarrow> int \<Rightarrow> event_loop \<times> int" where
  "event_loop_del loop fd =
     (if fd < 0 \<or> fd \<ge> FD_SETSIZE then (loop, - 1)
      else
        let tab = (fd_data loop)(nat fd := None) in
        (loop\<lparr>fd_data := tab,
              max_fd := (if fd = max_fd loop then max_fd_below tab (nat fd) else max_fd loop)\<rparr>,
         0))"

text \<open>
  What \<^verbatim>\<open>select\<close> answered: its return value, \<^verbatim>\<open>errno\<close>, and the three descriptor sets
  as it left them.
\<close>

datatype errno = EINTR | EBADF | EINVAL | ENOMEM

record select_result =
  sel_ret :: int
  sel_errno :: errno
  sel_read :: "nat set"
  sel_write :: "nat set"
  sel_error :: "nat set"

text \<open>
  The callbacks of the program: \<open>cbs k fd events user_data\<close> is what the \<open>k\<close>-th callback
  does to the reactor (callbacks add and remove registrations).
\<close>

type_synonym callbacks = "nat \<Rightarrow> int \<Rightarrow> int \<Rightarrow> nat \<Rightarrow> event_loop \<Rightarrow> event_loop"

text \<open>
  The dispatch loop \<^verbatim>\<open>for (fd = 0; fd <= loop->max_fd && processed < ready; fd++)\<close>.
  \<^verbatim>\<open>fd_data\<close> has \<^verbatim>\<open>FD_SETSIZE\<close> entries; the trace lists the callbacks made, as
  (descriptor, events).
\<close>

function dispatch_loop ::
  "callbacks \<Rightarrow> select_result \<Rightarrow> event_loop \<Rightarrow> int \<Rightarrow> int \<Rightarrow> (int \<times> int) list
     \<Rightarrow> error + (event_loop \<times> int \<times> (int \<times> int) list)" where
  "dispatch_loop cbs sel loop fd processed trace =
     (if fd \<le> max_fd loop \<and> processed < sel_ret sel then
        (if fd < 0 \<or> FD_SETSIZE \<le> fd then Inl OutOfBounds
         else (case fd_data loop (nat fd) of
                 None \<Rightarrow> dispatch_loop cbs sel loop (fd + 1) processed trace
               | Some data \<Rightarrow>
                   let events = (if nat fd \<in> sel_read sel then EVENT_READ else 0)
                             OR (if nat fd \<in> sel_write sel then EVENT_WRITE else 0)
                             OR (if nat fd \<in> sel_error sel then EVENT_ERROR else 0)
                   in (case callback data of
                         Some k \<Rightarrow>
                           if events \<noteq> 0
                           then dispatch_loop cbs sel (cbs k fd events (user_data data) loop)
                                  (fd + 1) (processed + 1) (trace @ [(fd, events)])
                           else dispatch_loop cbs sel loop (fd + 1) processed trace
                       | None \<Rightarrow> dispatch_loop cbs sel loop (fd + 1) processed trace)))
      else Inr (loop, processed, trace))"
  by pat_completeness auto
termination
  by (relation "measure (\<lambda>(cbs, sel, loop, fd, processed, trace). nat (FD_SETSIZE - fd))")
    auto

text \<open>
  \<^verbatim>\<open>event_loop_run\<close>: the value returned, the callbacks dispatched and the reactor
  afterwards.
\<close>

definition event_loop_run ::
  "callbacks \<Rightarrow> select_result \<Rightarrow> event_loop \<Rightarrow> int
     \<Rightarrow> error + (int \<times> (int \<times> int) list \<times> event_loop)" where
  "event_loop_run cbs sel loop timeout_ms =
     (if max_fd loop < 0 then Inr (0, [], loop)
      else if sel_ret sel < 0
        then (if sel_errno sel = EINTR then Inr (0, [], loop) else Inr (- 1, [], loop))
      else (case dispatch_loop cbs sel loop 0 0 [] of
              Inl e \<Rightarrow> Inl e
            | Inr (loop', processed, trace) \<Rightarrow> Inr (sel_ret sel, trace, loop')))"

section \<open>The backend connection pool (conn\_pool.c)\<close>

datatype PoolConnState = POOL_CONN_FREE | POOL_CONN_IN_USE | POOL_CONN_CLOSING

text \<open>\<open>lru_next\<close> and \<open>lru_prev\<close> are the \<^verbatim>\<open>next\<close> and \<^verbatim>\<open>prev\<close> pointers of the LRU list.\<close>

record PooledConnection =
  fd :: int
  backend_host :: string
  backend_port :: string
  last_used :: int
  created :: int
  state :: PoolConnState
  requests_served :: int
  lru_next :: "nat option"
  lru_prev :: "nat option"

text \<open>The array \<^verbatim>\<open>connections[0 .. max_size)\<close> is the list \<open>slots\<close>.\<close>

record conn_pool_t =
  slots :: "PooledConnection list"
  current_size :: int
  ttl_seconds :: int
  max_requests_per_conn :: int
  lru_head :: "nat option"
  lru_tail :: "nat option"
  pool_hits :: "64 word"
  pool_misses :: "64 word"
  pool_evictions :: "64 word"


text \<open>
  What \<^verbatim>\<open>poll\<close> with timeout 0 and the \<^verbatim>\<open>recv\<close> peek answer for a descriptor:
  \<open>poll_ret\<close> is \<^verbatim>\<open>poll\<close>'s return value, \<open>revents_bad\<close> says that one of
  \<^verbatim>\<open>POLLERR\<close>, \<^verbatim>\<open>POLLHUP\<close>, \<^verbatim>\<open>POLLNVAL\<close> is set, \<open>revents_in\<close> that \<^verbatim>\<open>POLLIN\<close> is,
  \<open>recv_ret\<close> is \<^verbatim>\<open>recv\<close>'s return value and \<open>recv_again\<close> says that \<^verbatim>\<open>errno\<close> is
  \<^verbatim>\<open>EAGAIN\<close> or \<^verbatim>\<open>EWOULDBLOCK\<close>.
\<close>

record probe =
  poll_ret :: int
  revents_bad :: bool
  revents_in :: bool
  recv_ret :: int
  recv_again :: bool

definition conn_is_alive :: "(int \<Rightarrow> probe) \<Rightarrow> int \<Rightarrow> bool" where
  "conn_is_alive sockets d =
     (if d < 0 then False
      else
        let r = sockets d in
        if poll_ret r < 0 then False
        else if poll_ret r > 0 then
          (if revents_bad r then False
           else if revents_in r then
             (if recv_ret r = 0 then False
              else if recv_ret r < 0 \<and> \<not> recv_again r then False
              else True)
           else True)
        else True)"

definition set_lru_next :: "conn_pool_t \<Rightarrow> nat \<Rightarrow> nat option \<Rightarrow> conn_pool_t" where
  "set_lru_next pool c v = pool\<lparr>slots := (slots pool)[c := (slots pool ! c)\<lparr>lru_next := v\<rparr>]\<rparr>"

definition set_lru_prev :: "conn_pool_t \<Rightarrow> nat \<Rightarrow> nat option \<Rightarrow> conn_pool_t" where
  "set_lru_prev pool c v = pool\<lparr>slots := (slots pool)[c := (slots pool ! c)\<lparr>lru_prev := v\<rparr>]\<rparr>"

text \<open>\<^verbatim>\<open>lru_remove(pool, conn)\<close>, statement by statement, \<open>conn\<close> being slot \<open>c\<close>.\<close>

definition lru_remove :: "conn_pool_t \<Rightarrow> nat \<Rightarrow> conn_pool_t" where
  "lru_remove pool c =
     (let p1 = (case lru_prev (slots pool ! c) of
                  Some pv \<Rightarrow> set_lru_next pool pv (lru_next (slots pool ! c))
                | None \<Rightarrow> pool);
          p2 = (case lru_next (slots p1 ! c) of
                  Some nx \<Rightarrow> set_lru_prev p1 nx (lru_prev (slots p1 ! c))
                | None \<Rightarrow> p1);
          p3 = (if lru_head p2 = Some c then p2\<lparr>lru_head := lru_next (slots p2 ! c)\<rparr> else p2);
          p4 = (if lru_tail p3 = Some c then p3\<lparr>lru_tail := lru_prev (slots p3 ! c)\<rparr> else p3)
      in set_lru_prev (set_lru_next p4 c None) c None)"

text \<open>
  One iteration of the sweep of \<^verbatim>\<open>conn_pool_cleanup\<close> at slot \<open>i\<close>, on the state
  (pool, \<^verbatim>\<open>evicted\<close>, descriptors closed so far). \<open>now\<close> is the one reading of the clock
  the sweep takes.
\<close>

definition cleanup_body ::
  "(int \<Rightarrow> probe) \<Rightarrow> int \<Rightarrow> nat \<Rightarrow> conn_pool_t \<times> int \<times> int list
     \<Rightarrow> conn_pool_t \<times> int \<times> int list" where
  "cleanup_body sockets now i s =
     (case s of (pool, evicted, closed_fds) \<Rightarrow>
        let conn = slots pool ! i in
        if state conn = POOL_CONN_FREE \<and> fd conn \<ge> 0 then
          (if (ttl_seconds pool > 0 \<and> now - created conn > ttl_seconds pool)
              \<or> now - last_used conn > 30
              \<or> \<not> conn_is_alive sockets (fd conn)
           then
             let p1 = pool\<lparr>slots := (slots pool)[i := conn\<lparr>fd := - 1\<rparr>]\<rparr>;
                 p2 = lru_remove p1 i
             in (p2\<lparr>current_size := current_size p2 - 1,
                    pool_evictions := pool_evictions p2 + 1\<rparr>,
                 evicted + 1, closed_fds @ [fd conn])
           else s)
        else s)"

text \<open>
  \<^verbatim>\<open>conn_pool_cleanup\<close>: the pool afterwards, the count returned and the descriptors
  closed.
\<close>

definition conn_pool_cleanup ::
  "(int \<Rightarrow> probe) \<Rightarrow> int \<Rightarrow> conn_pool_t \<Rightarrow> conn_pool_t \<times> int \<times> int list" where
  "conn_pool_cleanup sockets now pool =
     fold (cleanup_body sockets now) [0..<length (slots pool)] (pool, 0, [])"

section \<open>Double precision\<close>

text \<open>
  A \<^verbatim>\<open>double\<close> is an IEEE-754 binary64 value: a rational number, an infinity or NaN.
  Zero carries no sign: the sign of a zero shows in a division only, and the one division
  of the program has a divisor converted from an \<^verbatim>\<open>int\<close>, which is never the negative
  zero.
\<close>

datatype double = Fin rat | PInf | NInf | NaN

text \<open>The integer nearest to a rational, the even one of two that are equally near.\<close>

definition rne :: "rat \<Rightarrow> int" where
  "rne z = (let f = \<lfloor>z\<rfloor>; d = z - of_int f in
            if d < 1 / 2 then f else if 1 / 2 < d then f + 1
            else if even f then f else f + 1)"

text \<open>
  The exponent of a magnitude \<open>a\<close>: the \<open>e\<close> between \<open>-1022\<close> and \<open>1023\<close> with
  \<open>2\<^sup>e \<le> a < 2\<^sup>e\<^sup>+\<^sup>1\<close>, found by bisection; \<open>-1022\<close> for the subnormal magnitudes below
  and \<open>1023\<close> for those above.
\<close>

function find_exponent :: "int \<Rightarrow> int \<Rightarrow> rat \<Rightarrow> int" where
  "find_exponent lo hi a =
     (if hi \<le> lo then lo
      else let mid = (lo + hi + 1) div 2 in
        if 2 powi mid \<le> a then find_exponent mid hi a else find_exponent lo (mid - 1) a)"
  by pat_completeness auto
termination
  by (relation "measure (\<lambda>(lo, hi, a). nat (hi - lo))") auto

text \<open>
  Around a magnitude of exponent \<open>e\<close> the format holds the multiples of \<open>2\<^sup>e\<^sup>-\<^sup>5\<^sup>2\<close>.
  \<open>dround x\<close> is the value an operation delivers whose exact result is \<open>x\<close>: the nearest
  of these multiples, or an infinity when that is \<open>2\<^sup>1\<^sup>0\<^sup>2\<^sup>4\<close> or more.
\<close>

definition expo :: "rat \<Rightarrow> int" where
  "expo a = find_exponent (- 1022) 1023 a"

definition ulp :: "rat \<Rightarrow> rat" where
  "ulp a = 2 powi (expo a - 52)"

definition round_mag :: "rat \<Rightarrow> rat" where
  "round_mag a = of_int (rne (a / ulp a)) * ulp a"

definition dround :: "rat \<Rightarrow> double" where
  "dround x = (if 2 ^ 1024 \<le> round_mag \<bar>x\<bar> then (if 0 < x then PInf else NInf)
               else Fin (sgn x * round_mag \<bar>x\<bar>))"

text \<open>
  The operations of the program. Each one rounds its exact result once (a product and
  a sum are two operations, not one fused); the rules for infinities and NaN are those
  of the standard.
\<close>

fun dneg :: "double \<Rightarrow> double" where
  "dneg (Fin a) = Fin (- a)"
| "dneg PInf = NInf"
| "dneg NInf = PInf"
| "dneg NaN = NaN"

fun dadd :: "double \<Rightarrow> double \<Rightarrow> double" where
  "dadd (Fin a) (Fin b) = dround (a + b)"
| "dadd NaN y = NaN"
| "dadd x NaN = NaN"
| "dadd PInf NInf = NaN"
| "dadd NInf PInf = NaN"
| "dadd PInf y = PInf"
| "dadd x PInf = PInf"
| "dadd NInf y = NInf"
| "dadd x NInf = NInf"

definition dsub :: "double \<Rightarrow> double \<Rightarrow> double" where
  "dsub x y = dadd x (dneg y)"

fun dmul :: "double \<Rightarrow> double \<Rightarrow> double" where
  "dmul (Fin a) (Fin b) = dround (a * b)"
| "dmul NaN y = NaN"
| "dmul x NaN = NaN"
| "dmul (Fin a) PInf = (if a = 0 then NaN else if 0 < a then PInf else NInf)"
| "dmul (Fin a) NInf = (if a = 0 then NaN else if 0 < a then NInf else PInf)"
| "dmul PInf (Fin b) = (if b = 0 then NaN else if 0 < b then PInf else NInf)"
| "dmul NInf (Fin b) = (if b = 0 then NaN else if 0 < b then NInf else PInf)"
| "dmul PInf PInf = PInf"
| "dmul PInf NInf = NInf"
| "dmul NInf PInf = NInf"
| "dmul NInf NInf = PInf"

text \<open>A zero divisor is the positive zero.\<close>

fun ddiv :: "double \<Rightarrow> double \<Rightarrow> double" where
  "ddiv (Fin a) (Fin b) =
     (if b = 0 then (if a = 0 then NaN else if 0 < a then PInf else NInf)
      else dround (a / b))"
| "ddiv NaN y = NaN"
| "ddiv x NaN = NaN"
| "ddiv (Fin a) y = Fin 0"
| "ddiv PInf (Fin b) = (if 0 \<le> b then PInf else NInf)"
| "ddiv NInf (Fin b) = (if 0 \<le> b then NInf else PInf)"
| "ddiv x y = NaN"

text \<open>Comparisons; every comparison with NaN is false.\<close>

fun dlt :: "double \<Rightarrow> double \<Rightarrow> bool" where
  "dlt (Fin a) (Fin b) = (a < b)"
| "dlt NaN y = False"
| "dlt x NaN = False"
| "dlt x NInf = False"
| "dlt PInf y = False"
| "dlt NInf y = True"
| "dlt x PInf = True"

fun dle :: "double \<Rightarrow> double \<Rightarrow> bool" where
  "dle (Fin a) (Fin b) = (a \<le> b)"
| "dle NaN y = False"
| "dle x NaN = False"
| "dle NInf y = True"
| "dle x PInf = True"
| "dle x NInf = False"
| "dle PInf y = False"

definition dgt :: "double \<Rightarrow> double \<Rightarrow> bool" where
  "dgt x y = dlt y x"

definition dge :: "double \<Rightarrow> double \<Rightarrow> bool" where
  "dge x y = dle y x"

text \<open>
  Conversions. \<^verbatim>\<open>long\<close> and \<^verbatim>\<open>int\<close> to \<^verbatim>\<open>double\<close> rounds. \<^verbatim>\<open>double\<close> to \<^verbatim>\<open>long\<close> or
  \<^verbatim>\<open>int\<close> truncates towards zero; for a value out of range, an infinity or NaN the
  x86-64 conversion delivers the least value of the type.
\<close>

definition d_of_int :: "int \<Rightarrow> double" where
  "d_of_int n = dround (of_int n)"

definition c_trunc :: "rat \<Rightarrow> int" where
  "c_trunc v = (if v < 0 then \<lceil>v\<rceil> else \<lfloor>v\<rfloor>)"

definition d_to_long :: "double \<Rightarrow> int" where
  "d_to_long d =
     (case d of
        Fin v \<Rightarrow>
          if - 9223372036854775808 \<le> c_trunc v \<and> c_trunc v \<le> 9223372036854775807
          then c_trunc v else - 9223372036854775808
      | _ \<Rightarrow> - 9223372036854775808)"

definition d_to_int :: "double \<Rightarrow> int" where
  "d_to_int d =
     (case d of
        Fin v \<Rightarrow>
          if - 2147483648 \<le> c_trunc v \<and> c_trunc v \<le> 2147483647
          then c_trunc v else - 2147483648
      | _ \<Rightarrow> - 2147483648)"

section \<open>The rate limiter (rate\_limiter.c)\<close>

datatype RateLimitAlgorithm = RATE_TOKEN_BUCKET | RATE_SLIDING_WINDOW | RATE_FIXED_WINDOW

definition HASH_SIZE :: nat where "HASH_SIZE = 1024"

text \<open>A hash chain is the list of its entries, head first.\<close>

record RateEntry =
  key :: string
  tokens :: double
  window_count :: int
  window_start :: int
  last_update :: int

record rate_limiter_t =
  rl_algorithm :: RateLimitAlgorithm
  rate :: double
  burst :: double
  window_size :: int
  buckets :: "nat \<Rightarrow> RateEntry list"
  global_count :: int
  global_limit :: int
  global_window_start :: int
  allowed :: "64 word"
  denied :: "64 word"

text \<open>\<^verbatim>\<open>hash_key\<close>: \<^verbatim>\<open>*key++\<close> is a \<^verbatim>\<open>char\<close> and enters the sum with its sign.\<close>

definition hash_key :: "string \<Rightarrow> nat" where
  "hash_key k =
     unat (fold (\<lambda>c (h :: 32 word). (push_bit 5 h + h) + of_int (c_char c)) k 5381)
       mod HASH_SIZE"

text \<open>\<^verbatim>\<open>rate_limiter_create\<close>: the window size is \<^verbatim>\<open>(int)burst\<close>.\<close>

definition rate_limiter_create :: "RateLimitAlgorithm \<Rightarrow> double \<Rightarrow> double \<Rightarrow> rate_limiter_t" where
  "rate_limiter_create alg r b =
     \<lparr>rl_algorithm = alg, rate = r, burst = b, window_size = d_to_int b,
      buckets = (\<lambda>i. []), global_count = 0, global_limit = 0, global_window_start = 0,
      allowed = 0, denied = 0\<rparr>"

text \<open>The position in a chain of the first entry whose key compares equal.\<close>

fun chain_find :: "RateEntry list \<Rightarrow> string \<Rightarrow> nat option" where
  "chain_find [] k = None"
| "chain_find (e # es) k = (if key e = k then Some 0 else map_option Suc (chain_find es k))"

text \<open>
  \<^verbatim>\<open>find_or_create_entry\<close>: the entry is named by its bucket and its position in the
  chain. \<open>calloc_ok\<close> says whether the allocation succeeded; \<open>t_last_update\<close> and
  \<open>t_window_start\<close> are the two readings of the clock taken for a new entry.
\<close>

definition find_or_create_entry ::
  "rate_limiter_t \<Rightarrow> string \<Rightarrow> bool \<Rightarrow> int \<Rightarrow> int \<Rightarrow> rate_limiter_t \<times> (nat \<times> nat) option" where
  "find_or_create_entry limiter k calloc_ok t_last_update t_window_start =
     (let idx = hash_key k in
      case chain_find (buckets limiter idx) k of
        Some pos \<Rightarrow> (limiter, Some (idx, pos))
      | None \<Rightarrow>
          if \<not> calloc_ok then (limiter, None)
          else
            (limiter\<lparr>buckets := (buckets limiter)
               (idx := \<lparr>key = take 63 k, tokens = burst limiter, window_count = 0,
                        window_start = t_window_start, last_update = t_last_update\<rparr>
                       # buckets limiter idx)\<rparr>,
             Some (idx, 0)))"

text \<open>
  \<^verbatim>\<open>token_bucket_allow\<close>; \<open>now\<close> is the reading of the clock. \<^verbatim>\<open>difftime\<close> delivers the
  difference of the two readings as a \<^verbatim>\<open>double\<close>.
\<close>

definition token_bucket_allow :: "rate_limiter_t \<Rightarrow> RateEntry \<Rightarrow> int \<Rightarrow> RateEntry \<times> int" where
  "token_bucket_allow limiter entry now =
     (let elapsed = d_of_int (now - last_update entry);
          t1 = dadd (tokens entry) (dmul elapsed (rate limiter));
          t2 = (if dgt t1 (burst limiter) then burst limiter else t1);
          e2 = entry\<lparr>tokens := t2, last_update := now\<rparr>
      in if dge (tokens e2) (Fin 1) then (e2\<lparr>tokens := dsub (tokens e2) (Fin 1)\<rparr>, 1)
         else (e2, 0))"

text \<open>
  \<^verbatim>\<open>sliding_window_allow\<close>. The quotient, the difference from \<open>1.0\<close> and the product with
  the old count are computed in double precision, the product is converted to \<^verbatim>\<open>long\<close>;
  so is the comparison of the count with \<^verbatim>\<open>rate * window_size\<close>.
\<close>

definition sliding_window_allow :: "rate_limiter_t \<Rightarrow> RateEntry \<Rightarrow> int \<Rightarrow> RateEntry \<times> int" where
  "sliding_window_allow limiter entry now =
     (let e1 = (if now - window_start entry \<ge> window_size limiter
                then
                  let weight0 = dsub (Fin 1)
                        (ddiv (d_of_int (now - window_start entry - window_size limiter))
                              (d_of_int (window_size limiter)));
                      weight1 = (if dlt weight0 (Fin 0) then Fin 0 else weight0);
                      weighted_count = d_to_long (dmul (d_of_int (window_count entry)) weight1)
                  in entry\<lparr>window_count := weighted_count, window_start := now\<rparr>
                else entry);
          max_requests = dmul (rate limiter) (d_of_int (window_size limiter))
      in if dlt (d_of_int (window_count e1)) max_requests
         then (e1\<lparr>window_count := wrap64 (window_count e1 + 1)\<rparr>, 1)
         else (e1, 0))"

definition fixed_window_allow :: "rate_limiter_t \<Rightarrow> RateEntry \<Rightarrow> int \<Rightarrow> RateEntry \<times> int" where
  "fixed_window_allow limiter entry now =
     (let e1 = (if now - window_start entry \<ge> window_size limiter
                then entry\<lparr>window_count := 0, window_start := now\<rparr>
                else entry);
          max_requests = dmul (rate limiter) (d_of_int (window_size limiter))
      in if dlt (d_of_int (window_count e1)) max_requests
         then (e1\<lparr>window_count := wrap64 (window_count e1 + 1)\<rparr>, 1)
         else (e1, 0))"

text \<open>
  What one call of \<^verbatim>\<open>rate_limiter_allow\<close> takes from outside: the readings of the clock,
  in the order of the calls of \<^verbatim>\<open>time\<close> (in the global check, twice for a new entry,
  in the algorithm), and whether \<^verbatim>\<open>calloc\<close> succeeds.
\<close>

record allow_env =
  t_global :: int
  calloc_ok :: bool
  t_last_update :: int
  t_window_start :: int
  t_now :: int

definition rate_limiter_allow :: "rate_limiter_t \<Rightarrow> string \<Rightarrow> allow_env \<Rightarrow> rate_limiter_t \<times> int" where
  "rate_limiter_allow limiter k env =
     (let l1 = (if global_limit limiter > 0 \<and> t_global env \<noteq> global_window_start limiter
                then limiter\<lparr>global_count := 0, global_window_start := t_global env\<rparr>
                else limiter)
      in if global_limit l1 > 0 \<and> global_count l1 \<ge> global_limit l1
         then (l1\<lparr>denied := denied l1 + 1\<rparr>, 0)
         else
           (case find_or_create_entry l1 k (calloc_ok env) (t_last_update env)
                   (t_window_start env) of
              (l2, None) \<Rightarrow> (l2, 1)
            | (l2, Some (idx, pos)) \<Rightarrow>
                let entry = buckets l2 idx ! pos;
                    r = (case rl_algorithm l2 of
                           RATE_TOKEN_BUCKET \<Rightarrow> token_bucket_allow l2 entry (t_now env)
                         | RATE_SLIDING_WINDOW \<Rightarrow> sliding_window_allow l2 entry (t_now env)
                         | RATE_FIXED_WINDOW \<Rightarrow> fixed_window_allow l2 entry (t_now env));
                    l3 = l2\<lparr>buckets := (buckets l2)(idx := (buckets l2 idx)[pos := fst r])\<rparr>
                in if snd r \<noteq> 0
                   then (l3\<lparr>allowed := allowed l3 + 1,
                            global_count := wrap64 (global_count l3 + 1)\<rparr>,
                         snd r)
                   else (l3\<lparr>denied := denied l3 + 1\<rparr>, snd r)))"

text \<open>\<open>n\<close> calls of \<^verbatim>\<open>token_bucket_allow\<close> on one entry, at the given readings of the clock.\<close>

fun token_bucket_run :: "rate_limiter_t \<Rightarrow> RateEntry \<Rightarrow> int list \<Rightarrow> RateEntry" where
  "token_bucket_run limiter entry [] = entry"
| "token_bucket_run limiter entry (now # nows) =
     token_bucket_run limiter (fst (token_bucket_allow limiter entry now)) nows"

chapter \<open>Properties\<close>

text \<open>
  The loops defined by general recursion are unfolded one step at a time, where a proof
  asks for it.
\<close>

declare rr_loop.simps [simp del] ip_scan.simps [simp del] dispatch_loop.simps [simp del]
  find_exponent.simps [simp del]

section \<open>The keep-alive decision\<close>

lemma is_prefix_iff: "is_prefix n h \<longleftrightarrow> (\<exists>s. h = n @ s)"
  by (induction n h rule: is_prefix.induct) auto

text \<open>\<open>strstr\<close> finds the needle exactly when the haystack contains it as a block.\<close>

lemma strstr_iff: "strstr h n \<longleftrightarrow> (\<exists>p s. h = p @ n @ s)"
proof (induction h)
  case Nil
  then show ?case by auto
next
  case (Cons a h)
  show ?case
  proof
    assume "strstr (a # h) n"
    then consider "is_prefix n (a # h)" | "strstr h n" by auto
    then show "\<exists>p s. a # h = p @ n @ s"
    proof cases
      case 1
      then obtain s where "a # h = n @ s" by (auto simp: is_prefix_iff)
      then have "a # h = [] @ n @ s" by simp
      then show ?thesis by blast
    next
      case 2
      then obtain p s where "h = p @ n @ s" using Cons.IH by auto
      then have "a # h = (a # p) @ n @ s" by simp
      then show ?thesis by blast
    qed
  next
    assume "\<exists>p s. a # h = p @ n @ s"
    then obtain p s where e: "a # h = p @ n @ s" by auto
    show "strstr (a # h) n"
    proof (cases p)
      case Nil
      then have "is_prefix n (a # h)" using e by (auto simp: is_prefix_iff)
      then show ?thesis by simp
    next
      case (Cons b p')
      then have "h = p' @ n @ s" using e by simp
      then have "strstr h n" using Cons.IH by auto
      then show ?thesis by simp
    qed
  qed
qed

text \<open>
  C3, as the code has it. The decision is 1 for a request that contains the bytes
  \<^verbatim>\<open>HTTP/1.1\<close> anywhere unless it contains the bytes \<^verbatim>\<open>Connection: close\<close>, and for
  any other request it is 1 only if the request contains \<^verbatim>\<open>Connection: keep-alive\<close> or
  \<^verbatim>\<open>Connection: Keep-Alive\<close>; every match is on these exact bytes, so the case of the
  letters matters.
\<close>

theorem check_keep_alive_exact_bytes:
  "check_keep_alive r =
     (if (\<exists>p s. r = p @ ''HTTP/1.1'' @ s)
      then (if (\<exists>p s. r = p @ ''Connection: close'' @ s) then 0 else 1)
      else if (\<exists>p s. r = p @ ''Connection: keep-alive'' @ s) \<or>
              (\<exists>p s. r = p @ ''Connection: Keep-Alive'' @ s) then 1
      else 0)"
  unfolding check_keep_alive_def strstr_iff ..

text \<open>
  C3 as the specification states it fails: an HTTP/1.1 request whose header is spelt
  \<^verbatim>\<open>connection: CLOSE\<close> is kept alive, and an HTTP/1.0 request whose header is spelt
  \<^verbatim>\<open>connection: KEEP-ALIVE\<close> is not.
\<close>

theorem check_keep_alive_case_sensitive:
  "check_keep_alive (''GET / HTTP/1.1'' @ [CHR 0x0D, CHR 0x0A] @ ''connection: CLOSE''
                       @ [CHR 0x0D, CHR 0x0A, CHR 0x0D, CHR 0x0A]) = 1 \<and>
   check_keep_alive (''GET / HTTP/1.0'' @ [CHR 0x0D, CHR 0x0A] @ ''connection: KEEP-ALIVE''
                       @ [CHR 0x0D, CHR 0x0A, CHR 0x0D, CHR 0x0A]) = 0"
  by (simp add: check_keep_alive_def)

section \<open>Smooth weighted round robin\<close>

subsection \<open>The selection loop\<close>

text \<open>
  Within the range of \<^verbatim>\<open>int\<close> nothing wraps. On a roster that \<open>wrr_fits\<close> every sum and
  difference that one selection forms lies in that range.
\<close>

definition in32 :: "int \<Rightarrow> bool" where
  "in32 x \<longleftrightarrow> - 2147483648 \<le> x \<and> x \<le> 2147483647"

lemma wrap32_id: "in32 x \<Longrightarrow> wrap32 x = x"
  by (simp add: in32_def wrap32_def)

definition wrr_fits :: "Backend list \<Rightarrow> bool" where
  "wrr_fits bs \<longleftrightarrow>
     (\<forall>i<length bs. is_healthy (bs ! i) \<longrightarrow>
        in32 (current_weight (bs ! i) + weight (bs ! i)) \<and>
        in32 (total_weight_of (take (Suc i) bs)) \<and>
        in32 (current_weight (bs ! i) + weight (bs ! i) - total_weight_of bs))"

definition wrr_bump :: "Backend \<Rightarrow> Backend" where
  "wrr_bump b = (if is_healthy b then b\<lparr>current_weight := current_weight b + weight b\<rparr> else b)"

lemma wrr_bump_simps [simp]:
  "weight (wrr_bump b) = weight b"
  "is_healthy (wrr_bump b) = is_healthy b"
  "current_weight (wrr_bump b) = (if is_healthy b then current_weight b + weight b else current_weight b)"
  by (simp_all add: wrr_bump_def)

lemma total_weight_of_snoc:
  "total_weight_of (bs @ [b]) = total_weight_of bs + (if is_healthy b then weight b else 0)"
  by (simp add: total_weight_of_def)

definition wrr_best_ok :: "Backend list \<Rightarrow> nat \<Rightarrow> nat option \<Rightarrow> bool" where
  "wrr_best_ok bs0 k best =
     (case best of
        None \<Rightarrow> (\<forall>i<k. \<not> is_healthy (bs0 ! i))
      | Some j \<Rightarrow> j < k \<and> is_healthy (bs0 ! j) \<and>
          (\<forall>i<k. is_healthy (bs0 ! i) \<longrightarrow>
             current_weight (bs0 ! i) + weight (bs0 ! i) \<le> current_weight (bs0 ! j) + weight (bs0 ! j)))"

lemma wrr_prefix_nth:
  assumes "k < length bs0"
  shows "(map wrr_bump (take k bs0) @ drop k bs0) ! k = bs0 ! k"
  using assms by (simp add: nth_append)

lemma wrr_prefix_nth_lt:
  assumes "j < k" "k \<le> length bs0"
  shows "(map wrr_bump (take k bs0) @ drop k bs0) ! j = wrr_bump (bs0 ! j)"
  using assms by (simp add: nth_append)

lemma wrr_prefix_Suc_unhealthy:
  assumes "k < length bs0" "\<not> is_healthy (bs0 ! k)"
  shows "map wrr_bump (take (Suc k) bs0) @ drop (Suc k) bs0 = map wrr_bump (take k bs0) @ drop k bs0"
  using assms by (simp add: take_Suc_conv_app_nth wrr_bump_def Cons_nth_drop_Suc)

lemma wrr_prefix_Suc_healthy:
  assumes "k < length bs0" "is_healthy (bs0 ! k)"
  shows "(map wrr_bump (take k bs0) @ drop k bs0)
           [k := (bs0 ! k)\<lparr>current_weight := current_weight (bs0 ! k) + weight (bs0 ! k)\<rparr>]
         = map wrr_bump (take (Suc k) bs0) @ drop (Suc k) bs0"
proof -
  have "drop k bs0 = bs0 ! k # drop (Suc k) bs0"
    using assms by (simp add: Cons_nth_drop_Suc)
  then show ?thesis
    using assms by (simp add: take_Suc_conv_app_nth wrr_bump_def list_update_append)
qed

lemma take_take_Suc: "i < k \<Longrightarrow> take (Suc i) (take k bs) = take (Suc i) bs"
  by (simp add: min_def)

lemma fold_wrr_body:
  assumes "k \<le> length bs0"
    and "\<forall>i<k. is_healthy (bs0 ! i) \<longrightarrow>
           in32 (current_weight (bs0 ! i) + weight (bs0 ! i)) \<and>
           in32 (total_weight_of (take (Suc i) bs0))"
  shows "\<exists>best. fold wrr_body [0..<k] (bs0, 0, None)
           = (map wrr_bump (take k bs0) @ drop k bs0, total_weight_of (take k bs0), best)
         \<and> wrr_best_ok bs0 k best"
  using assms
proof (induction k)
  case 0
  then show ?case by (simp add: total_weight_of_def wrr_best_ok_def)
next
  case (Suc k)
  then have klt: "k < length bs0" by simp
  have fitk: "\<forall>i<k. is_healthy (bs0 ! i) \<longrightarrow>
           in32 (current_weight (bs0 ! i) + weight (bs0 ! i)) \<and>
           in32 (total_weight_of (take (Suc i) bs0))"
    using Suc.prems(2) by simp
  have kle: "k \<le> length bs0" using klt by simp
  from Suc.IH[OF kle fitk] obtain best where
    f: "fold wrr_body [0..<k] (bs0, 0, None)
          = (map wrr_bump (take k bs0) @ drop k bs0, total_weight_of (take k bs0), best)"
    and ok: "wrr_best_ok bs0 k best" by auto
  let ?bs = "map wrr_bump (take k bs0) @ drop k bs0"
  have nk: "?bs ! k = bs0 ! k" using klt by (rule wrr_prefix_nth)
  have tk: "take (Suc k) bs0 = take k bs0 @ [bs0 ! k]"
    using klt by (simp add: take_Suc_conv_app_nth)
  show ?case
  proof (cases "is_healthy (bs0 ! k)")
    case False
    have "fold wrr_body [0..<Suc k] (bs0, 0, None)
            = (?bs, total_weight_of (take k bs0), best)"
      using f nk False by (simp add: wrr_body_def)
    moreover have "total_weight_of (take (Suc k) bs0) = total_weight_of (take k bs0)"
      using False by (simp add: tk total_weight_of_snoc)
    moreover have "wrr_best_ok bs0 (Suc k) best"
      using ok False by (auto simp: wrr_best_ok_def less_Suc_eq split: option.splits)
    ultimately show ?thesis
      using wrr_prefix_Suc_unhealthy[OF klt False] by simp
  next
    case True
    let ?bs' = "?bs[k := (bs0 ! k)\<lparr>current_weight := current_weight (bs0 ! k) + weight (bs0 ! k)\<rparr>]"
    let ?best' = "(case best of None \<Rightarrow> Some k
                   | Some j \<Rightarrow> if current_weight (?bs' ! k) > current_weight (?bs' ! j)
                       then Some k else Some j)"
    have tw: "total_weight_of (take (Suc k) bs0) = total_weight_of (take k bs0) + weight (bs0 ! k)"
      using True by (simp add: tk total_weight_of_snoc)
    have w1: "wrap32 (current_weight (bs0 ! k) + weight (bs0 ! k))
                = current_weight (bs0 ! k) + weight (bs0 ! k)"
      using Suc.prems(2) True by (intro wrap32_id) simp
    have "in32 (total_weight_of (take (Suc k) bs0))" using Suc.prems(2) True by simp
    then have w2: "wrap32 (total_weight_of (take k bs0) + weight (bs0 ! k))
                = total_weight_of (take k bs0) + weight (bs0 ! k)"
      unfolding tw by (rule wrap32_id)
    have step: "fold wrr_body [0..<Suc k] (bs0, 0, None)
            = (?bs', total_weight_of (take k bs0) + weight (bs0 ! k), ?best')"
      using f nk True by (simp add: wrr_body_def Let_def w1 w2)
    have bs': "?bs' = map wrr_bump (take (Suc k) bs0) @ drop (Suc k) bs0"
      using wrr_prefix_Suc_healthy[OF klt True] .
    have cwk: "current_weight (?bs' ! k) = current_weight (bs0 ! k) + weight (bs0 ! k)"
      using klt by simp
    have cwj: "current_weight (?bs' ! j) = current_weight (bs0 ! j) + weight (bs0 ! j)"
      if "j < k" "is_healthy (bs0 ! j)" for j
    proof -
      have "?bs' ! j = ?bs ! j" using that by simp
      also have "\<dots> = wrr_bump (bs0 ! j)" using that klt by (simp add: wrr_prefix_nth_lt)
      finally show ?thesis using that by simp
    qed
    have "wrr_best_ok bs0 (Suc k) ?best'"
    proof (cases best)
      case None
      then show ?thesis using ok True by (auto simp: wrr_best_ok_def less_Suc_eq)
    next
      case (Some j)
      then have j: "j < k" "is_healthy (bs0 ! j)"
        and mx: "\<forall>i<k. is_healthy (bs0 ! i) \<longrightarrow>
             current_weight (bs0 ! i) + weight (bs0 ! i) \<le> current_weight (bs0 ! j) + weight (bs0 ! j)"
        using ok by (auto simp: wrr_best_ok_def)
      show ?thesis
      proof (cases "current_weight (?bs' ! k) > current_weight (?bs' ! j)")
        case gt: True
        then have "?best' = Some k" using Some by simp
        moreover have "\<forall>i<Suc k. is_healthy (bs0 ! i) \<longrightarrow>
             current_weight (bs0 ! i) + weight (bs0 ! i) \<le> current_weight (bs0 ! k) + weight (bs0 ! k)"
        proof (intro allI impI)
          fix i assume "i < Suc k" "is_healthy (bs0 ! i)"
          show "current_weight (bs0 ! i) + weight (bs0 ! i) \<le> current_weight (bs0 ! k) + weight (bs0 ! k)"
          proof (cases "i = k")
            case True then show ?thesis by simp
          next
            case False
            then have "i < k" using \<open>i < Suc k\<close> by simp
            then have "current_weight (bs0 ! i) + weight (bs0 ! i) \<le> current_weight (bs0 ! j) + weight (bs0 ! j)"
              using mx \<open>is_healthy (bs0 ! i)\<close> by simp
            also have "\<dots> < current_weight (bs0 ! k) + weight (bs0 ! k)"
              using gt cwk cwj[OF j] by simp
            finally show ?thesis by simp
          qed
        qed
        ultimately show ?thesis using True by (simp add: wrr_best_ok_def)
      next
        case le: False
        then have "?best' = Some j" using Some by simp
        moreover have "current_weight (bs0 ! k) + weight (bs0 ! k) \<le> current_weight (bs0 ! j) + weight (bs0 ! j)"
          using le cwk cwj[OF j] by simp
        ultimately show ?thesis using j mx by (auto simp: wrr_best_ok_def less_Suc_eq)
      qed
    qed
    then show ?thesis using step bs' tw by simp
  qed
qed

lemma finite_healthy_set [simp]: "finite (healthy_set bs)"
  by (simp add: healthy_set_def)

lemma healthy_set_snoc:
  "healthy_set (bs @ [b]) = healthy_set bs \<union> (if is_healthy b then {length bs} else {})"
  by (auto simp: healthy_set_def nth_append less_Suc_eq)

lemma total_weight_of_sum:
  "total_weight_of bs = (\<Sum>i\<in>healthy_set bs. weight (bs ! i))"
proof (induction bs rule: rev_induct)
  case Nil
  then show ?case by (simp add: total_weight_of_def healthy_set_def)
next
  case (snoc b bs)
  have notin: "length bs \<notin> healthy_set bs" by (simp add: healthy_set_def)
  have eq: "(\<Sum>i\<in>healthy_set bs. weight ((bs @ [b]) ! i)) = (\<Sum>i\<in>healthy_set bs. weight (bs ! i))"
    by (rule sum.cong) (auto simp: healthy_set_def nth_append)
  show ?case
    using snoc notin eq by (simp add: total_weight_of_snoc healthy_set_snoc)
qed

text \<open>What one selection does to the roster, index by index.\<close>

definition wrr_step_rel :: "Backend list \<Rightarrow> nat \<Rightarrow> Backend list \<Rightarrow> bool" where
  "wrr_step_rel bs j bs' \<longleftrightarrow>
     length bs' = length bs \<and> j \<in> healthy_set bs \<and>
     (\<forall>i<length bs. weight (bs' ! i) = weight (bs ! i) \<and> is_healthy (bs' ! i) = is_healthy (bs ! i)) \<and>
     (\<forall>i\<in>healthy_set bs. current_weight (bs' ! i) =
         current_weight (bs ! i) + weight (bs ! i) - (if i = j then total_weight_of bs else 0)) \<and>
     (\<forall>i\<in>healthy_set bs. current_weight (bs ! i) + weight (bs ! i)
         \<le> current_weight (bs ! j) + weight (bs ! j))"

lemma select_wrr_step:
  assumes "healthy_set (backends lb) \<noteq> {}" and fits: "wrr_fits (backends lb)"
  shows "\<exists>j lb'. select_weighted_round_robin lb = Inr (j, lb') \<and>
           wrr_step_rel (backends lb) j (backends lb')"
proof -
  let ?bs0 = "backends lb"
  let ?n = "length ?bs0"
  have fit1: "\<forall>i<?n. is_healthy (?bs0 ! i) \<longrightarrow>
           in32 (current_weight (?bs0 ! i) + weight (?bs0 ! i)) \<and>
           in32 (total_weight_of (take (Suc i) ?bs0))"
    using fits by (simp add: wrr_fits_def)
  obtain best where
    f: "fold wrr_body [0..<?n] (?bs0, 0, None) = (map wrr_bump ?bs0, total_weight_of ?bs0, best)"
    and ok: "wrr_best_ok ?bs0 ?n best"
    using fold_wrr_body[of ?n ?bs0, OF _ fit1] by auto
  from assms obtain i where "i < ?n" "is_healthy (?bs0 ! i)" by (auto simp: healthy_set_def)
  with ok obtain j where best: "best = Some j" by (cases best) (auto simp: wrr_best_ok_def)
  with ok have j: "j < ?n" "is_healthy (?bs0 ! j)"
    and mx: "\<forall>i<?n. is_healthy (?bs0 ! i) \<longrightarrow>
        current_weight (?bs0 ! i) + weight (?bs0 ! i) \<le> current_weight (?bs0 ! j) + weight (?bs0 ! j)"
    by (auto simp: wrr_best_ok_def)
  let ?bs1 = "map wrr_bump ?bs0"
  let ?bs' = "?bs1[j := (?bs1 ! j)\<lparr>current_weight := current_weight (?bs1 ! j) - total_weight_of ?bs0\<rparr>]"
  have "in32 (current_weight (?bs0 ! j) + weight (?bs0 ! j) - total_weight_of ?bs0)"
    using fits j by (simp add: wrr_fits_def)
  then have w3: "wrap32 (current_weight (?bs0 ! j) + weight (?bs0 ! j) - total_weight_of ?bs0)
      = current_weight (?bs0 ! j) + weight (?bs0 ! j) - total_weight_of ?bs0"
    by (rule wrap32_id)
  have sel: "select_weighted_round_robin lb = Inr (j, lb\<lparr>backends := ?bs'\<rparr>)"
    using f best j by (simp add: select_weighted_round_robin_def w3)
  have "wrr_step_rel ?bs0 j ?bs'"
    unfolding wrr_step_rel_def
  proof (intro conjI allI ballI impI)
    show "length ?bs' = ?n" by simp
    show "j \<in> healthy_set ?bs0" using j by (simp add: healthy_set_def)
  next
    fix i assume "i < ?n"
    then show "weight (?bs' ! i) = weight (?bs0 ! i)" by (cases "i = j") simp_all
    show "is_healthy (?bs' ! i) = is_healthy (?bs0 ! i)" using \<open>i < ?n\<close> by (cases "i = j") simp_all
  next
    fix i assume "i \<in> healthy_set ?bs0"
    then have i: "i < ?n" "is_healthy (?bs0 ! i)" by (auto simp: healthy_set_def)
    show "current_weight (?bs' ! i) =
         current_weight (?bs0 ! i) + weight (?bs0 ! i) - (if i = j then total_weight_of ?bs0 else 0)"
      using i by (cases "i = j") simp_all
    show "current_weight (?bs0 ! i) + weight (?bs0 ! i) \<le> current_weight (?bs0 ! j) + weight (?bs0 ! j)"
      using mx i by simp
  qed
  with sel show ?thesis by auto
qed

subsection \<open>Invariants of a run\<close>

definition same_roster :: "Backend list \<Rightarrow> Backend list \<Rightarrow> bool" where
  "same_roster bs bs' \<longleftrightarrow>
     length bs' = length bs \<and>
     (\<forall>i<length bs. weight (bs' ! i) = weight (bs ! i) \<and> is_healthy (bs' ! i) = is_healthy (bs ! i))"

lemma same_roster_refl [simp]: "same_roster bs bs"
  by (simp add: same_roster_def)

lemma same_roster_trans: "same_roster a b \<Longrightarrow> same_roster b c \<Longrightarrow> same_roster a c"
  by (simp add: same_roster_def)

lemma same_roster_healthy_set: "same_roster bs bs' \<Longrightarrow> healthy_set bs' = healthy_set bs"
  by (auto simp: same_roster_def healthy_set_def)

lemma same_roster_weight:
  "same_roster bs bs' \<Longrightarrow> i \<in> healthy_set bs \<Longrightarrow> weight (bs' ! i) = weight (bs ! i)"
  by (simp add: same_roster_def healthy_set_def)

lemma same_roster_total_weight:
  assumes "same_roster bs bs'"
  shows "total_weight_of bs' = total_weight_of bs"
proof -
  have "(\<Sum>i\<in>healthy_set bs. weight (bs' ! i)) = (\<Sum>i\<in>healthy_set bs. weight (bs ! i))"
    by (rule sum.cong) (simp_all add: same_roster_weight[OF assms])
  then show ?thesis
    by (simp add: total_weight_of_sum same_roster_healthy_set[OF assms])
qed

lemma wrr_step_same_roster: "wrr_step_rel bs j bs' \<Longrightarrow> same_roster bs bs'"
  by (simp add: wrr_step_rel_def same_roster_def)

definition wrr_inv :: "Backend list \<Rightarrow> bool" where
  "wrr_inv bs \<longleftrightarrow>
     (\<Sum>i\<in>healthy_set bs. current_weight (bs ! i)) = 0 \<and>
     (\<forall>i\<in>healthy_set bs. - total_weight_of bs < current_weight (bs ! i))"

definition positive_weights :: "Backend list \<Rightarrow> bool" where
  "positive_weights bs \<longleftrightarrow> (\<forall>i\<in>healthy_set bs. 0 < weight (bs ! i))"

lemma total_weight_pos:
  assumes "healthy_set bs \<noteq> {}" "positive_weights bs"
  shows "0 < total_weight_of bs"
  unfolding total_weight_of_sum
  using assms by (intro sum_pos) (auto simp: positive_weights_def)

lemma wrr_step_inv:
  assumes st: "wrr_step_rel bs j bs'"
    and pos: "positive_weights bs"
    and inv: "wrr_inv bs"
  shows "wrr_inv bs'"
proof -
  let ?H = "healthy_set bs"
  let ?W = "total_weight_of bs"
  have sr: "same_roster bs bs'" using st by (rule wrr_step_same_roster)
  have H': "healthy_set bs' = ?H" using sr by (rule same_roster_healthy_set)
  have W': "total_weight_of bs' = ?W" using sr by (rule same_roster_total_weight)
  have j: "j \<in> ?H" using st by (simp add: wrr_step_rel_def)
  have cw: "\<forall>i\<in>?H. current_weight (bs' ! i) =
      current_weight (bs ! i) + weight (bs ! i) - (if i = j then ?W else 0)"
    using st by (simp add: wrr_step_rel_def)
  have mx: "\<forall>i\<in>?H. current_weight (bs ! i) + weight (bs ! i) \<le> current_weight (bs ! j) + weight (bs ! j)"
    using st by (simp add: wrr_step_rel_def)
  have Wpos: "0 < ?W" using j pos by (intro total_weight_pos) auto
  have s0: "(\<Sum>i\<in>?H. current_weight (bs ! i)) = 0" using inv by (simp add: wrr_inv_def)
  have sumplus: "(\<Sum>i\<in>?H. current_weight (bs ! i) + weight (bs ! i)) = ?W"
    using s0 by (simp add: sum.distrib total_weight_of_sum)
  have "(\<Sum>i\<in>?H. current_weight (bs' ! i))
      = (\<Sum>i\<in>?H. (current_weight (bs ! i) + weight (bs ! i)) - (if i = j then ?W else 0))"
    by (rule sum.cong) (simp_all add: cw)
  also have "\<dots> = (\<Sum>i\<in>?H. current_weight (bs ! i) + weight (bs ! i)) - (\<Sum>i\<in>?H. if i = j then ?W else 0)"
    by (simp add: sum_subtractf)
  also have "\<dots> = ?W - ?W"
    using j by (simp add: sumplus)
  finally have sum': "(\<Sum>i\<in>healthy_set bs'. current_weight (bs' ! i)) = 0"
    by (simp add: H')
  have top: "0 < current_weight (bs ! j) + weight (bs ! j)"
  proof (rule ccontr)
    assume "\<not> 0 < current_weight (bs ! j) + weight (bs ! j)"
    then have "\<forall>i\<in>?H. current_weight (bs ! i) + weight (bs ! i) \<le> 0"
      using mx by force
    then have "(\<Sum>i\<in>?H. current_weight (bs ! i) + weight (bs ! i)) \<le> 0"
      by (intro sum_nonpos) auto
    with sumplus Wpos show False by simp
  qed
  have low: "\<forall>i\<in>healthy_set bs'. - total_weight_of bs' < current_weight (bs' ! i)"
  proof
    fix i assume "i \<in> healthy_set bs'"
    then have i: "i \<in> ?H" by (simp add: H')
    show "- total_weight_of bs' < current_weight (bs' ! i)"
    proof (cases "i = j")
      case True
      then show ?thesis using cw i top by (simp add: W')
    next
      case False
      have "- ?W < current_weight (bs ! i)" using inv i by (simp add: wrr_inv_def)
      moreover have "0 < weight (bs ! i)" using pos i by (simp add: positive_weights_def)
      ultimately show ?thesis using cw i False by (simp add: W')
    qed
  qed
  show ?thesis using sum' low by (simp add: wrr_inv_def)
qed

lemma wrr_inv_upper:
  assumes inv: "wrr_inv bs" and i: "i \<in> healthy_set bs"
  shows "current_weight (bs ! i) \<le> (int (card (healthy_set bs)) - 1) * total_weight_of bs"
proof -
  let ?H = "healthy_set bs"
  let ?W = "total_weight_of bs"
  have "(\<Sum>k\<in>?H. current_weight (bs ! k)) = 0" using inv by (simp add: wrr_inv_def)
  then have "current_weight (bs ! i) + (\<Sum>k\<in>?H - {i}. current_weight (bs ! k)) = 0"
    using i by (simp add: sum.remove)
  then have "current_weight (bs ! i) = (\<Sum>k\<in>?H - {i}. - current_weight (bs ! k))"
    by (simp add: sum_negf)
  also have "\<dots> \<le> int (card (?H - {i})) * ?W"
  proof (rule sum_bounded_above)
    fix k assume "k \<in> ?H - {i}"
    then have "- ?W < current_weight (bs ! k)" using inv by (simp add: wrr_inv_def)
    then show "- current_weight (bs ! k) \<le> ?W" by simp
  qed
  also have "int (card (?H - {i})) = int (card ?H) - 1"
  proof -
    have "0 < card ?H" using i by (auto simp: card_gt_0_iff)
    then show ?thesis using i by (simp add: card_Diff_singleton of_nat_diff)
  qed
  finally show ?thesis .
qed

lemma weight_le_total:
  assumes "positive_weights bs" "i \<in> healthy_set bs"
  shows "weight (bs ! i) \<le> total_weight_of bs"
  unfolding total_weight_of_sum
proof (rule member_le_sum)
  show "i \<in> healthy_set bs" by (rule assms(2))
  show "finite (healthy_set bs)" by simp
  fix k assume "k \<in> healthy_set bs - {i}"
  then show "0 \<le> weight (bs ! k)" using assms(1) by (auto simp: positive_weights_def less_imp_le)
qed

lemma total_weight_of_nonneg:
  assumes "\<forall>b\<in>set bs. is_healthy b \<longrightarrow> 0 \<le> weight b"
  shows "0 \<le> total_weight_of bs"
  unfolding total_weight_of_def using assms by (intro sum_list_nonneg) auto

lemma total_weight_of_take:
  assumes "positive_weights bs"
  shows "0 \<le> total_weight_of (take k bs) \<and> total_weight_of (take k bs) \<le> total_weight_of bs"
proof -
  have nn: "\<forall>b\<in>set bs. is_healthy b \<longrightarrow> 0 \<le> weight b"
  proof (intro ballI impI)
    fix b assume "b \<in> set bs" "is_healthy b"
    then obtain i where "i < length bs" "bs ! i = b" by (auto simp: in_set_conv_nth)
    then show "0 \<le> weight b"
      using assms \<open>is_healthy b\<close> by (auto simp: positive_weights_def healthy_set_def less_imp_le)
  qed
  have 1: "0 \<le> total_weight_of (take k bs)"
    using nn by (intro total_weight_of_nonneg) (auto dest: in_set_takeD)
  have 2: "0 \<le> total_weight_of (drop k bs)"
    using nn by (intro total_weight_of_nonneg) (auto dest: in_set_dropD)
  have "filter is_healthy bs = filter is_healthy (take k bs) @ filter is_healthy (drop k bs)"
    by (simp flip: filter_append)
  then have "total_weight_of bs = total_weight_of (take k bs) + total_weight_of (drop k bs)"
    by (simp add: total_weight_of_def)
  with 1 2 show ?thesis by simp
qed

text \<open>
  As long as the number of healthy backends times their total weight is at most
  \<^verbatim>\<open>INT_MAX\<close>, the invariant keeps every sum and difference of a selection in range.
\<close>

lemma wrr_inv_fits:
  assumes ne: "healthy_set bs \<noteq> {}" and pos: "positive_weights bs" and inv: "wrr_inv bs"
    and bound: "int (card (healthy_set bs)) * total_weight_of bs \<le> INT_MAX"
  shows "wrr_fits bs"
  unfolding wrr_fits_def
proof (intro allI impI)
  fix i assume "i < length bs" "is_healthy (bs ! i)"
  then have i: "i \<in> healthy_set bs" by (simp add: healthy_set_def)
  let ?W = "total_weight_of bs"
  let ?n = "int (card (healthy_set bs))"
  let ?c = "current_weight (bs ! i)"
  let ?w = "weight (bs ! i)"
  have Wpos: "0 < ?W" using ne pos by (rule total_weight_pos)
  have "0 < card (healthy_set bs)" using i by (auto simp: card_gt_0_iff)
  then have n1: "1 \<le> ?n" by simp
  have lo: "- ?W < ?c" using inv i by (simp add: wrr_inv_def)
  have hi: "?c \<le> (?n - 1) * ?W" using inv i by (rule wrr_inv_upper)
  have w: "0 < ?w" "?w \<le> ?W"
    using pos i weight_le_total[OF pos i] by (simp_all add: positive_weights_def)
  have t: "0 \<le> total_weight_of (take (Suc i) bs)" "total_weight_of (take (Suc i) bs) \<le> ?W"
    using total_weight_of_take[OF pos, of "Suc i"] by simp_all
  have nW: "?n * ?W \<le> 2147483647" using bound by (simp add: INT_MAX_def)
  have "1 * ?W \<le> ?n * ?W" using n1 Wpos by (intro mult_right_mono) simp_all
  then have W: "?W \<le> 2147483647" using nW by simp
  have hi': "?c + ?W \<le> ?n * ?W" using hi by (simp add: algebra_simps)
  have a: "in32 (?c + ?w)" using lo hi' w nW W by (simp add: in32_def)
  have b: "in32 (total_weight_of (take (Suc i) bs))" using t W by (simp add: in32_def)
  have low: "- 2147483648 \<le> ?c + ?w - ?W"
  proof (cases "?n = 1")
    case True
    then have "card (healthy_set bs) = 1" by simp
    then obtain x where "healthy_set bs = {x}" by (rule card_1_singletonE)
    then have "healthy_set bs = {i}" using i by simp
    then have "?W = ?w" by (simp add: total_weight_of_sum)
    then show ?thesis using lo W by simp
  next
    case False
    then have "2 \<le> ?n" using n1 by simp
    then have "2 * ?W \<le> ?n * ?W" using Wpos by (intro mult_right_mono) simp_all
    then show ?thesis using lo w nW by linarith
  qed
  have c: "in32 (?c + ?w - ?W)" using low hi' w nW by (simp add: in32_def)
  from a b c show "in32 (?c + ?w) \<and> in32 (total_weight_of (take (Suc i) bs)) \<and> in32 (?c + ?w - ?W)"
    by simp
qed

lemma positive_weights_same_roster:
  "same_roster bs bs' \<Longrightarrow> positive_weights bs \<Longrightarrow> positive_weights bs'"
  by (simp add: positive_weights_def same_roster_healthy_set same_roster_weight)

lemma wrr_run_invariant:
  assumes "healthy_set (backends lb) \<noteq> {}" "positive_weights (backends lb)" "wrr_inv (backends lb)"
    "int (card (healthy_set (backends lb))) * total_weight_of (backends lb) \<le> INT_MAX"
  shows "\<exists>js lb'. wrr_run k lb = Inr (js, lb') \<and> length js = k \<and>
           set js \<subseteq> healthy_set (backends lb) \<and>
           same_roster (backends lb) (backends lb') \<and> wrr_inv (backends lb') \<and>
           (\<forall>i\<in>healthy_set (backends lb).
              current_weight (backends lb' ! i) =
                current_weight (backends lb ! i) + int k * weight (backends lb ! i)
                  - total_weight_of (backends lb) * int (count_list js i))"
  using assms
proof (induction k arbitrary: lb)
  case 0
  then show ?case by simp
next
  case (Suc k)
  let ?bs = "backends lb"
  have fits: "wrr_fits ?bs" using Suc.prems by (rule wrr_inv_fits)
  obtain j lb1 where sel: "select_weighted_round_robin lb = Inr (j, lb1)"
    and st: "wrr_step_rel ?bs j (backends lb1)"
    using select_wrr_step[OF Suc.prems(1) fits] by auto
  let ?bs1 = "backends lb1"
  have sr1: "same_roster ?bs ?bs1" using st by (rule wrr_step_same_roster)
  have H1: "healthy_set ?bs1 = healthy_set ?bs" using sr1 by (rule same_roster_healthy_set)
  have W1: "total_weight_of ?bs1 = total_weight_of ?bs" using sr1 by (rule same_roster_total_weight)
  have pos1: "positive_weights ?bs1" using sr1 Suc.prems(2) by (rule positive_weights_same_roster)
  have inv1: "wrr_inv ?bs1" using st Suc.prems(2,3) by (rule wrr_step_inv)
  have ne1: "healthy_set ?bs1 \<noteq> {}" using H1 Suc.prems(1) by simp
  have bound1: "int (card (healthy_set ?bs1)) * total_weight_of ?bs1 \<le> INT_MAX"
    using Suc.prems(4) by (simp add: H1 W1)
  obtain js lb2 where run: "wrr_run k lb1 = Inr (js, lb2)" and len: "length js = k"
    and sub: "set js \<subseteq> healthy_set ?bs1"
    and sr2: "same_roster ?bs1 (backends lb2)" and inv2: "wrr_inv (backends lb2)"
    and cw2: "\<forall>i\<in>healthy_set ?bs1. current_weight (backends lb2 ! i) =
                current_weight (?bs1 ! i) + int k * weight (?bs1 ! i)
                  - total_weight_of ?bs1 * int (count_list js i)"
    using Suc.IH[OF ne1 pos1 inv1 bound1] by blast
  have j: "j \<in> healthy_set ?bs" using st by (simp add: wrr_step_rel_def)
  have cw1: "\<forall>i\<in>healthy_set ?bs. current_weight (?bs1 ! i) =
      current_weight (?bs ! i) + weight (?bs ! i) - (if i = j then total_weight_of ?bs else 0)"
    using st by (simp add: wrr_step_rel_def)
  have "wrr_run (Suc k) lb = Inr (j # js, lb2)" using sel run by simp
  moreover have "length (j # js) = Suc k" using len by simp
  moreover have "set (j # js) \<subseteq> healthy_set ?bs" using j sub H1 by simp
  moreover have "same_roster ?bs (backends lb2)" using sr1 sr2 by (rule same_roster_trans)
  moreover have "\<forall>i\<in>healthy_set ?bs. current_weight (backends lb2 ! i) =
                current_weight (?bs ! i) + int (Suc k) * weight (?bs ! i)
                  - total_weight_of ?bs * int (count_list (j # js) i)"
  proof
    fix i assume i: "i \<in> healthy_set ?bs"
    have "current_weight (backends lb2 ! i) =
        current_weight (?bs1 ! i) + int k * weight (?bs1 ! i) - total_weight_of ?bs * int (count_list js i)"
      using cw2 i H1 W1 by simp
    moreover have "weight (?bs1 ! i) = weight (?bs ! i)" using sr1 i by (rule same_roster_weight)
    moreover have "current_weight (?bs1 ! i) =
      current_weight (?bs ! i) + weight (?bs ! i) - (if i = j then total_weight_of ?bs else 0)"
      using cw1 i by simp
    ultimately show "current_weight (backends lb2 ! i) =
                current_weight (?bs ! i) + int (Suc k) * weight (?bs ! i)
                  - total_weight_of ?bs * int (count_list (j # js) i)"
      by (cases "i = j") (simp_all add: algebra_simps)
  qed
  ultimately show ?case using inv2 by blast
qed

subsection \<open>Each backend is chosen as often as its weight\<close>

text \<open>The roster of the specification's scenario: A, B, C with weights 3, 2, 1.\<close>

definition lb_321 :: LoadBalancer where
  "lb_321 = \<lparr>backends = [parse_backend ''A'' ''9001'' (Some 3), parse_backend ''B'' ''9002'' (Some 2),
                          parse_backend ''C'' ''9003'' (Some 1)],
             current_index = -1, algorithm = ALG_WEIGHTED_ROUND_ROBIN,
             connections = [], free_list = None, num_connections = 0, lb_total_requests = 0\<rparr>"

text \<open>
  C1. Let the healthy part of the roster be non-empty, with positive weights and current
  weights 0, and let the number of healthy backends times the sum of their weights be at
  most \<^verbatim>\<open>INT_MAX\<close>. Then as many consecutive smooth weighted round-robin selections as
  the healthy weights add up to all succeed, choose healthy backends only, and choose
  each healthy backend exactly as often as its weight.
\<close>

theorem wrr_exact_distribution:
  assumes ne: "healthy_set (backends lb) \<noteq> {}"
    and init: "\<forall>i\<in>healthy_set (backends lb).
                 0 < weight (backends lb ! i) \<and> current_weight (backends lb ! i) = 0"
    and bound: "int (card (healthy_set (backends lb))) * total_weight_of (backends lb) \<le> INT_MAX"
  shows "\<exists>js lb'. wrr_run (nat (total_weight_of (backends lb))) lb = Inr (js, lb') \<and>
           set js \<subseteq> healthy_set (backends lb) \<and>
           (\<forall>i\<in>healthy_set (backends lb). int (count_list js i) = weight (backends lb ! i))"
proof -
  let ?bs = "backends lb"
  let ?H = "healthy_set ?bs"
  let ?W = "total_weight_of ?bs"
  have pos: "positive_weights ?bs" using init by (simp add: positive_weights_def)
  have Wpos: "0 < ?W" using ne pos by (rule total_weight_pos)
  have inv: "wrr_inv ?bs" using init Wpos by (simp add: wrr_inv_def)
  obtain js lb' where run: "wrr_run (nat ?W) lb = Inr (js, lb')" and len: "length js = nat ?W"
    and sub: "set js \<subseteq> ?H" and sr: "same_roster ?bs (backends lb')"
    and inv': "wrr_inv (backends lb')"
    and cw: "\<forall>i\<in>?H. current_weight (backends lb' ! i) =
                current_weight (?bs ! i) + int (nat ?W) * weight (?bs ! i)
                  - ?W * int (count_list js i)"
    using wrr_run_invariant[OF ne pos inv bound, of "nat ?W"] by blast
  have le: "int (count_list js i) \<le> weight (?bs ! i)" if i: "i \<in> ?H" for i
  proof -
    have "current_weight (backends lb' ! i) = ?W * (weight (?bs ! i) - int (count_list js i))"
      using cw i init Wpos by (simp add: algebra_simps)
    moreover have "- ?W < current_weight (backends lb' ! i)"
      using inv' i same_roster_healthy_set[OF sr] same_roster_total_weight[OF sr]
      by (simp add: wrr_inv_def)
    ultimately have "?W * (-1) < ?W * (weight (?bs ! i) - int (count_list js i))" by simp
    then have "-1 < weight (?bs ! i) - int (count_list js i)"
      using Wpos by (simp only: mult_less_cancel_left_pos)
    then show ?thesis by simp
  qed
  have "(\<Sum>i\<in>?H. count_list js i) = length js"
    using sub by (intro sum_count_set) simp_all
  then have "(\<Sum>i\<in>?H. int (count_list js i)) = ?W"
    using len Wpos by (simp flip: of_nat_sum)
  then have "(\<Sum>i\<in>?H. weight (?bs ! i) - int (count_list js i)) = 0"
    by (simp add: sum_subtractf total_weight_of_sum)
  moreover have "\<forall>i\<in>?H. 0 \<le> weight (?bs ! i) - int (count_list js i)"
    using le by simp
  ultimately have "\<forall>i\<in>?H. weight (?bs ! i) - int (count_list js i) = 0"
    by (simp add: sum_nonneg_eq_0_iff)
  then have "\<forall>i\<in>?H. int (count_list js i) = weight (?bs ! i)" by simp
  with run sub show ?thesis by blast
qed

lemma healthy_set_lb_321: "healthy_set (backends lb_321) = {0, 1, 2}"
  by (auto simp: healthy_set_def lb_321_def parse_backend_def less_Suc_eq nth_Cons')

lemma total_weight_lb_321: "total_weight_of (backends lb_321) = 6"
  by (simp add: total_weight_of_def lb_321_def parse_backend_def)

theorem wrr_exact_distribution_witness:
  "\<exists>js lb'. wrr_run 6 lb_321 = Inr (js, lb') \<and>
     count_list js 0 = 3 \<and> count_list js 1 = 2 \<and> count_list js 2 = 1"
proof -
  have ne: "healthy_set (backends lb_321) \<noteq> {}" by (simp add: healthy_set_lb_321)
  have init: "\<forall>i\<in>healthy_set (backends lb_321).
      0 < weight (backends lb_321 ! i) \<and> current_weight (backends lb_321 ! i) = 0"
    by (simp add: healthy_set_lb_321) (simp add: lb_321_def parse_backend_def)
  have bound: "int (card (healthy_set (backends lb_321))) * total_weight_of (backends lb_321)
      \<le> INT_MAX"
    by (simp add: healthy_set_lb_321 total_weight_lb_321 INT_MAX_def)
  from wrr_exact_distribution[OF ne init bound] obtain js lb' where
    run: "wrr_run 6 lb_321 = Inr (js, lb')"
    and cnt: "\<forall>i\<in>{0, 1, 2}. int (count_list js i) = weight (backends lb_321 ! i)"
    by (auto simp: total_weight_lb_321 healthy_set_lb_321)
  have "count_list js 0 = 3" "count_list js 1 = 2" "count_list js 2 = 1"
    using cnt by (simp_all add: lb_321_def parse_backend_def)
  with run show ?thesis by blast
qed

subsection \<open>Weights whose sums leave the range of int\<close>

text \<open>
  Two backends of weights \<open>2\<^sup>2\<^sup>8\<close> and \<open>5 \<sqdot> 2\<^sup>2\<^sup>8\<close>, as
  \<^verbatim>\<open>A:9001:268435456 B:9002:1342177280\<close> on the command line. The weights add up to
  1610612736, below \<^verbatim>\<open>INT_MAX\<close>; the fourth selection adds the weight of B to its
  current weight \<open>3 \<sqdot> 2\<^sup>2\<^sup>8\<close>, and the sum \<open>2\<^sup>3\<^sup>1\<close> wraps.
\<close>

definition lb_wrap :: LoadBalancer where
  "lb_wrap = \<lparr>backends = [parse_backend ''A'' ''9001'' (Some 268435456),
                           parse_backend ''B'' ''9002'' (Some 1342177280)],
              current_index = -1, algorithm = ALG_WEIGHTED_ROUND_ROBIN,
              connections = [], free_list = None, num_connections = 0, lb_total_requests = 0\<rparr>"

lemma wrr_run_append:
  "wrr_run (m + n) lb =
     (case wrr_run m lb of
        Inl e \<Rightarrow> Inl e
      | Inr (js, lb1) \<Rightarrow>
          (case wrr_run n lb1 of
             Inl e \<Rightarrow> Inl e
           | Inr (js', lb2) \<Rightarrow> Inr (js @ js', lb2)))"
  by (induction m arbitrary: lb) (auto split: sum.splits prod.splits)

lemma wrr_run_cycle:
  assumes "wrr_run p lb = Inr (s, lb)"
  shows "wrr_run (k * p) lb = Inr (concat (replicate k s), lb)"
proof (induction k)
  case 0
  then show ?case by simp
next
  case (Suc k)
  have "wrr_run (Suc k * p) lb = wrr_run (p + k * p) lb" by simp
  also have "\<dots> = Inr (s @ concat (replicate k s), lb)"
    unfolding wrr_run_append using assms Suc by simp
  finally show ?case by simp
qed

lemma count_list_concat_replicate:
  "count_list (concat (replicate k s)) x = k * count_list s x"
  by (induction k) simp_all

text \<open>After eight selections the roster is back where it started.\<close>

lemma wrr_run_lb_wrap:
  "wrr_run 8 lb_wrap = Inr ([1, 1, 0, 0, 1, 1, 0, 0], lb_wrap)"
  by (simp add: lb_wrap_def parse_backend_def select_weighted_round_robin_def wrr_body_def
      wrap32_def upt_rec eval_nat_numeral)

text \<open>
  C1 as the specification states it fails: over as many selections as the two weights add
  up to, either backend is chosen 805306368 times, neither as often as its weight.
\<close>

theorem wrr_distribution_wraps:
  "healthy_set (backends lb_wrap) = {0, 1} \<and>
   weight (backends lb_wrap ! 0) = 268435456 \<and> current_weight (backends lb_wrap ! 0) = 0 \<and>
   weight (backends lb_wrap ! 1) = 1342177280 \<and> current_weight (backends lb_wrap ! 1) = 0 \<and>
   total_weight_of (backends lb_wrap) = 1610612736 \<and>
   (\<exists>js lb'. wrr_run 1610612736 lb_wrap = Inr (js, lb') \<and>
      count_list js 0 = 805306368 \<and> count_list js 1 = 805306368)"
proof -
  let ?s = "[1, 1, 0, 0, 1, 1, 0, 0] :: nat list"
  have h: "healthy_set (backends lb_wrap) = {0, 1}"
    by (auto simp: healthy_set_def lb_wrap_def parse_backend_def less_Suc_eq nth_Cons')
  have f: "weight (backends lb_wrap ! 0) = 268435456" "current_weight (backends lb_wrap ! 0) = 0"
    "weight (backends lb_wrap ! 1) = 1342177280" "current_weight (backends lb_wrap ! 1) = 0"
    "total_weight_of (backends lb_wrap) = 1610612736"
    by (simp_all add: lb_wrap_def parse_backend_def total_weight_of_def)
  have "wrr_run (201326592 * 8) lb_wrap = Inr (concat (replicate 201326592 ?s), lb_wrap)"
    using wrr_run_lb_wrap by (rule wrr_run_cycle)
  then have run: "wrr_run 1610612736 lb_wrap = Inr (concat (replicate 201326592 ?s), lb_wrap)"
    by simp
  have c: "count_list (concat (replicate 201326592 ?s)) 0 = 805306368"
    "count_list (concat (replicate 201326592 ?s)) 1 = 805306368"
    by (simp_all add: count_list_concat_replicate)
  have "\<exists>js lb'. wrr_run 1610612736 lb_wrap = Inr (js, lb') \<and>
      count_list js 0 = 805306368 \<and> count_list js 1 = 805306368"
    by (rule exI[of _ "concat (replicate 201326592 ?s)"], rule exI[of _ lb_wrap])
      (simp only: run c simp_thms)
  with h f show ?thesis by (simp only: simp_thms)
qed

subsection \<open>The first six selections for weights 3, 2, 1\<close>

lemma wrr_run_lb_321: "map_sum id fst (wrr_run 6 lb_321) = Inr [0, 1, 0, 2, 1, 0]"
  by (simp add: lb_321_def parse_backend_def select_weighted_round_robin_def wrr_body_def
      wrap32_def upt_rec eval_nat_numeral)

text \<open>
  C4, as the code has it: with A, B, C of weights 3, 2, 1, all healthy and all current
  weights 0, the first six selections are A, B, A, C, B, A.
\<close>

theorem wrr_first_six_selections:
  "\<exists>js lb'. wrr_run 6 lb_321 = Inr (js, lb') \<and>
     map (\<lambda>j. host (backends lb_321 ! j)) js = [''A'', ''B'', ''A'', ''C'', ''B'', ''A'']"
proof -
  obtain js lb' where run: "wrr_run 6 lb_321 = Inr (js, lb')" and js: "js = [0, 1, 0, 2, 1, 0]"
    using wrr_run_lb_321 by (cases "wrr_run 6 lb_321") auto
  have m: "map (\<lambda>j. host (backends lb_321 ! j)) js = [''A'', ''B'', ''A'', ''C'', ''B'', ''A'']"
    unfolding js by (simp add: lb_321_def parse_backend_def)
  show ?thesis
    by (rule exI[of _ js], rule exI[of _ lb']) (simp only: run m)
qed

text \<open>C4 as the specification states it fails: the sequence is not A, A, B, A, B, C.\<close>

theorem wrr_first_six_not_AABABC:
  "\<not> (\<exists>js lb'. wrr_run 6 lb_321 = Inr (js, lb') \<and>
        map (\<lambda>j. host (backends lb_321 ! j)) js = [''A'', ''A'', ''B'', ''A'', ''B'', ''C''])"
proof (rule notI, elim exE conjE)
  fix js lb'
  assume run: "wrr_run 6 lb_321 = Inr (js, lb')"
    and m: "map (\<lambda>j. host (backends lb_321 ! j)) js = [''A'', ''A'', ''B'', ''A'', ''B'', ''C'']"
  from run have "js = [0, 1, 0, 2, 1, 0]" using wrr_run_lb_321 by simp
  with m show False by (simp add: lb_321_def parse_backend_def)
qed

section \<open>Every policy on an empty and on a non-empty roster\<close>

lemma c_mod_nonneg: "0 \<le> a \<Longrightarrow> 0 < b \<Longrightarrow> c_mod a b = Inr (a mod b)"
  by (cases "a = 0") (simp_all add: c_mod_def)

lemma rr_loop_total:
  assumes "0 < num_backends lb" "- 1 \<le> current_index lb" "current_index lb < num_backends lb"
    "- 1 \<le> start" "start < num_backends lb"
  shows "\<exists>j lb'. rr_loop lb start attempts = Inr (j, lb') \<and> j < length (backends lb) \<and>
           backends lb' = backends lb"
  using assms
proof (induction lb start attempts rule: rr_loop.induct)
  case (1 lb start attempts)
  let ?n = "num_backends lb"
  let ?ci = "(current_index lb + 1) mod ?n"
  let ?k = "(start + 1) mod ?n"
  have cm: "c_mod (current_index lb + 1) ?n = Inr ?ci" using "1.prems" by (simp add: c_mod_nonneg)
  have ck: "c_mod (start + 1) ?n = Inr ?k" using "1.prems" by (simp add: c_mod_nonneg)
  have ci: "0 \<le> ?ci" "?ci < ?n" using "1.prems" by simp_all
  have k: "0 \<le> ?k" "?k < ?n" using "1.prems" by simp_all
  have ci': "\<not> (?ci < 0 \<or> ?n \<le> ?ci)" using ci by simp
  have k': "\<not> (?k < 0 \<or> ?n \<le> ?k)" using k by simp
  have nat_lt: "nat x < length (backends lb)" if "0 \<le> x" "x < ?n" for x
    using that by (simp add: num_backends_def)
  show ?case
  proof (cases "is_healthy (backends lb ! nat ?ci)")
    case True
    then show ?thesis
      using cm ci' nat_lt[OF ci] by (subst rr_loop.simps) (simp del: de_Morgan_disj)
  next
    case False
    show ?thesis
    proof (cases "attempts + 1 < ?n")
      case True
      have "\<exists>j lb'. rr_loop (lb\<lparr>current_index := ?ci\<rparr>) start (attempts + 1) = Inr (j, lb') \<and>
              j < length (backends (lb\<lparr>current_index := ?ci\<rparr>)) \<and>
              backends lb' = backends (lb\<lparr>current_index := ?ci\<rparr>)"
        using "1.IH"[of ?ci] cm ci ci' False True "1.prems" by (simp add: num_backends_def)
      then show ?thesis
        using cm ci' False True by (subst rr_loop.simps) (simp del: de_Morgan_disj)
    next
      case nt: False
      then show ?thesis
        using cm ck ci' k' False nat_lt[OF k] by (subst rr_loop.simps) (simp del: de_Morgan_disj)
    qed
  qed
qed

lemma select_round_robin_total:
  assumes "backends lb \<noteq> []" "- 1 \<le> current_index lb" "current_index lb < num_backends lb"
  shows "\<exists>j lb'. select_round_robin lb = Inr (j, lb') \<and> j < length (backends lb) \<and>
           backends lb' = backends lb"
  unfolding select_round_robin_def
  using assms by (intro rr_loop_total) (simp_all add: num_backends_def)

lemma fold_wrr_body_shape:
  assumes "k \<le> length bs0"
  shows "\<exists>bs t best. fold wrr_body [0..<k] (bs0, 0, None) = (bs, t, best) \<and>
           length bs = length bs0 \<and> (\<forall>j. best = Some j \<longrightarrow> j < k)"
  using assms
proof (induction k)
  case 0
  then show ?case by simp
next
  case (Suc k)
  then obtain bs t best where
    f: "fold wrr_body [0..<k] (bs0, 0, None) = (bs, t, best)"
    and l: "length bs = length bs0" and b: "\<forall>j. best = Some j \<longrightarrow> j < k"
    by auto
  have step: "fold wrr_body [0..<Suc k] (bs0, 0, None) = wrr_body k (bs, t, best)"
    using f by simp
  show ?case
    unfolding step using l b by (cases best) (auto simp: wrr_body_def Let_def)
qed

lemma select_weighted_round_robin_total:
  assumes "backends lb \<noteq> []" "- 1 \<le> current_index lb" "current_index lb < num_backends lb"
  shows "\<exists>j lb'. select_weighted_round_robin lb = Inr (j, lb') \<and> j < length (backends lb) \<and>
           length (backends lb') = length (backends lb)"
proof -
  let ?bs0 = "backends lb"
  obtain bs t best where
    f: "fold wrr_body [0..<length ?bs0] (?bs0, 0, None) = (bs, t, best)"
    and l: "length bs = length ?bs0" and ok: "\<forall>j. best = Some j \<longrightarrow> j < length ?bs0"
    using fold_wrr_body_shape[of "length ?bs0" ?bs0] by auto
  show ?thesis
  proof (cases best)
    case None
    let ?lb1 = "lb\<lparr>backends := bs\<rparr>"
    have ne: "backends ?lb1 \<noteq> []" using assms(1) l by (cases bs) simp_all
    have "\<exists>j lb'. select_round_robin ?lb1 = Inr (j, lb') \<and> j < length (backends ?lb1) \<and>
           backends lb' = backends ?lb1"
      using ne assms(2,3) l by (intro select_round_robin_total) (simp_all add: num_backends_def)
    then show ?thesis
      using f None l by (auto simp: select_weighted_round_robin_def)
  next
    case (Some j)
    then have "j < length ?bs0" using ok by simp
    then show ?thesis
      using f Some l by (simp add: select_weighted_round_robin_def)
  qed
qed

lemma c_div_nonzero: "b \<noteq> 0 \<Longrightarrow> \<exists>q. c_div a b = Inr q"
  by (simp add: c_div_def)

lemma lc_loop_total:
  assumes "\<forall>b\<in>set bs. 1 \<le> weight b"
    and "\<forall>j. best = Some j \<longrightarrow> j < i + length bs"
  shows "\<exists>r. lc_loop bs i best m = Inr r \<and> (\<forall>j. r = Some j \<longrightarrow> j < i + length bs)"
  using assms
proof (induction bs arbitrary: i best m)
  case Nil
  then show ?case by simp
next
  case (Cons b bs)
  have w: "weight b \<noteq> 0" using Cons.prems(1) by auto
  then obtain q where q: "c_div (wrap32 (active_connections b * 100)) (weight b) = Inr q"
    using c_div_nonzero by blast
  have rest: "\<forall>b\<in>set bs. 1 \<le> weight b" using Cons.prems(1) by simp
  have b1: "\<forall>j. best = Some j \<longrightarrow> j < Suc i + length bs" using Cons.prems(2) by simp
  have b2: "\<forall>j. Some i = Some j \<longrightarrow> j < Suc i + length bs" by simp
  show ?case
    using Cons.IH[OF rest b1, of m] Cons.IH[OF rest b1, of q] Cons.IH[OF rest b2, of q] q
    by simp
qed

lemma select_least_connections_total:
  assumes "backends lb \<noteq> []" "- 1 \<le> current_index lb" "current_index lb < num_backends lb"
    "\<forall>b\<in>set (backends lb). 1 \<le> weight b"
  shows "\<exists>j lb'. select_least_connections lb = Inr (j, lb') \<and> j < length (backends lb) \<and>
           length (backends lb') = length (backends lb)"
proof -
  obtain r where r: "lc_loop (backends lb) 0 None INT_MAX = Inr r"
    and b: "\<forall>j. r = Some j \<longrightarrow> j < length (backends lb)"
    using lc_loop_total[OF assms(4), of None 0 INT_MAX] by auto
  show ?thesis
  proof (cases r)
    case None
    then show ?thesis
      using r select_round_robin_total[OF assms(1-3)] by (auto simp: select_least_connections_def)
  next
    case (Some j)
    then show ?thesis using r b by (simp add: select_least_connections_def)
  qed
qed

lemma ip_scan_total:
  assumes "start < length bs" "index < length bs"
  shows "\<exists>j. ip_scan bs start index = Inr j \<and> j < length bs"
  using assms
proof (induction bs start index rule: ip_scan.induct)
  case (1 bs start index)
  show ?case
  proof (cases "is_healthy (bs ! index)")
    case True
    then show ?thesis using "1.prems" by (subst ip_scan.simps) simp
  next
    case False
    show ?thesis
    proof (cases "(index + 1) mod length bs \<noteq> start")
      case True
      have "\<exists>j. ip_scan bs start ((index + 1) mod length bs) = Inr j \<and> j < length bs"
      proof (rule "1.IH")
        show "\<not> (length bs \<le> index \<or> length bs \<le> start)" using "1.prems" by simp
        show "\<not> is_healthy (bs ! index)" by (rule False)
        show "(index + 1) mod length bs \<noteq> start" by (rule True)
        show "start < length bs" using "1.prems" by simp
        have "0 < length bs" using "1.prems" by (cases bs) simp_all
        then show "(index + 1) mod length bs < length bs" by simp
      qed
      then show ?thesis using "1.prems" False True by (subst ip_scan.simps) simp
    next
      case eq: False
      then show ?thesis using "1.prems" False by (subst ip_scan.simps) simp
    qed
  qed
qed

lemma select_ip_hash_total:
  assumes "backends lb \<noteq> []"
  shows "\<exists>j lb'. select_ip_hash lb ip = Inr (j, lb') \<and> j < length (backends lb) \<and>
           length (backends lb') = length (backends lb)"
proof -
  let ?s = "unat (ip_hash_value ip) mod length (backends lb)"
  have "?s < length (backends lb)" using assms by simp
  then obtain j where "ip_scan (backends lb) ?s ?s = Inr j" "j < length (backends lb)"
    using ip_scan_total by blast
  then show ?thesis using assms by (simp add: select_ip_hash_def)
qed

text \<open>
  C5, as the code has it. On an empty roster every policy reaches a remainder modulo
  \<^verbatim>\<open>num_backends = 0\<close>: no policy tests for the empty roster, \<^verbatim>\<open>main\<close> leaves with
  "No valid backends" before any selection. On a non-empty roster, with the rolling
  index between \<open>-1\<close> (its initial value) and the last index and with weights of at
  least 1 (as \<^verbatim>\<open>parse_backend\<close> makes them), every policy returns a backend of the
  roster, also when no backend is healthy.
\<close>

theorem select_backend_nonempty_roster:
  "(backends lb = [] \<longrightarrow> select_backend lb ip = Inl DivisionByZero) \<and>
   (backends lb \<noteq> [] \<and> - 1 \<le> current_index lb \<and> current_index lb < num_backends lb \<and>
    (\<forall>b\<in>set (backends lb). 1 \<le> weight b) \<longrightarrow>
      (\<exists>j lb'. select_backend lb ip = Inr (j, lb') \<and> j < length (backends lb) \<and>
                length (backends lb') = length (backends lb)))"
proof (intro conjI impI)
  assume e: "backends lb = []"
  have rr: "select_round_robin lb = Inl DivisionByZero"
    unfolding select_round_robin_def
    using e by (subst rr_loop.simps) (simp add: c_mod_def num_backends_def)
  have rr': "select_round_robin (lb\<lparr>backends := []\<rparr>) = Inl DivisionByZero"
    unfolding select_round_robin_def
    by (subst rr_loop.simps) (simp add: c_mod_def num_backends_def)
  show "select_backend lb ip = Inl DivisionByZero"
    using e rr rr'
    by (cases "algorithm lb")
      (simp_all add: select_backend_def select_weighted_round_robin_def
        select_least_connections_def select_ip_hash_def)
next
  assume a: "backends lb \<noteq> [] \<and> - 1 \<le> current_index lb \<and> current_index lb < num_backends lb \<and>
    (\<forall>b\<in>set (backends lb). 1 \<le> weight b)"
  then have 1: "backends lb \<noteq> []" and 2: "- 1 \<le> current_index lb"
    and 3: "current_index lb < num_backends lb" and 4: "\<forall>b\<in>set (backends lb). 1 \<le> weight b"
    by simp_all
  show "\<exists>j lb'. select_backend lb ip = Inr (j, lb') \<and> j < length (backends lb) \<and>
                length (backends lb') = length (backends lb)"
  proof (cases "algorithm lb")
    case ALG_ROUND_ROBIN
    then show ?thesis
      using select_round_robin_total[OF 1 2 3] by (auto simp: select_backend_def)
  next
    case ALG_WEIGHTED_ROUND_ROBIN
    then show ?thesis
      using select_weighted_round_robin_total[OF 1 2 3] by (simp add: select_backend_def)
  next
    case ALG_LEAST_CONNECTIONS
    then show ?thesis
      using select_least_connections_total[OF 1 2 3 4] by (simp add: select_backend_def)
  next
    case ALG_IP_HASH
    then show ?thesis
      using select_ip_hash_total[OF 1] by (simp add: select_backend_def)
  qed
qed

theorem select_backend_nonempty_roster_witness:
  "select_backend (lb_321\<lparr>backends := []\<rparr>) ''10.0.0.1'' = Inl DivisionByZero \<and>
   (\<exists>j lb'. select_backend lb_321 ''10.0.0.1'' = Inr (j, lb') \<and> j < 3) \<and>
   (\<exists>j lb'. select_backend (lb_321\<lparr>algorithm := ALG_IP_HASH\<rparr>) ''10.0.0.1'' = Inr (j, lb') \<and> j < 3)"
proof -
  let ?ip = "''10.0.0.1''"
  let ?lbh = "lb_321\<lparr>algorithm := ALG_IP_HASH\<rparr>"
  have h: "backends lb_321 \<noteq> [] \<and> - 1 \<le> current_index lb_321 \<and>
      current_index lb_321 < num_backends lb_321 \<and> (\<forall>b\<in>set (backends lb_321). 1 \<le> weight b)"
    by (simp add: lb_321_def parse_backend_def num_backends_def)
  have hh: "backends ?lbh \<noteq> [] \<and> - 1 \<le> current_index ?lbh \<and>
      current_index ?lbh < num_backends ?lbh \<and> (\<forall>b\<in>set (backends ?lbh). 1 \<le> weight b)"
    by (simp add: lb_321_def parse_backend_def num_backends_def)
  have len: "length (backends lb_321) = 3" "length (backends ?lbh) = 3"
    by (simp_all add: lb_321_def)
  have 1: "select_backend (lb_321\<lparr>backends := []\<rparr>) ?ip = Inl DivisionByZero"
    using select_backend_nonempty_roster[of "lb_321\<lparr>backends := []\<rparr>" ?ip] by simp
  obtain j lb' where 2: "select_backend lb_321 ?ip = Inr (j, lb')" "j < length (backends lb_321)"
    using select_backend_nonempty_roster[of lb_321 ?ip] h by blast
  obtain j' lb'' where 3: "select_backend ?lbh ?ip = Inr (j', lb'')" "j' < length (backends ?lbh)"
    using select_backend_nonempty_roster[of ?lbh ?ip] hh by blast
  have "\<exists>j lb'. select_backend lb_321 ?ip = Inr (j, lb') \<and> j < 3"
    using 2 len(1) by (intro exI[of _ j] exI[of _ lb']) simp
  moreover have "\<exists>j lb'. select_backend ?lbh ?ip = Inr (j, lb') \<and> j < 3"
    using 3 len(2) by (intro exI[of _ j'] exI[of _ lb'']) simp
  ultimately show ?thesis using 1 by (intro conjI)
qed

text \<open>
  C5 as the specification states it fails: on the empty roster each of the four policies
  divides by zero instead of returning no backend.
\<close>

theorem select_backend_empty_roster:
  "select_backend (lb_321\<lparr>backends := [], algorithm := ALG_ROUND_ROBIN\<rparr>) ''10.0.0.1''
     = Inl DivisionByZero \<and>
   select_backend (lb_321\<lparr>backends := [], algorithm := ALG_WEIGHTED_ROUND_ROBIN\<rparr>) ''10.0.0.1''
     = Inl DivisionByZero \<and>
   select_backend (lb_321\<lparr>backends := [], algorithm := ALG_LEAST_CONNECTIONS\<rparr>) ''10.0.0.1''
     = Inl DivisionByZero \<and>
   select_backend (lb_321\<lparr>backends := [], algorithm := ALG_IP_HASH\<rparr>) ''10.0.0.1''
     = Inl DivisionByZero"
  by (simp add: lb_321_def select_backend_def select_round_robin_def rr_loop.simps c_mod_def
      num_backends_def select_weighted_round_robin_def select_least_connections_def
      select_ip_hash_def)

section \<open>What becomes of the backend descriptor when a session ends\<close>








section \<open>What the reactor returns\<close>

lemma dispatch_loop_total:
  assumes "max_fd loop < FD_SETSIZE"
    and "\<forall>k d e u l. max_fd l < FD_SETSIZE \<longrightarrow> max_fd (cbs k d e u l) < FD_SETSIZE"
    and "0 \<le> dsc"
  shows "\<exists>loop' p tr. dispatch_loop cbs sel loop dsc processed trace = Inr (loop', p, tr) \<and>
           int (length tr) - int (length trace) = p - processed \<and>
           p \<le> max processed (sel_ret sel) \<and> max_fd loop' < FD_SETSIZE"
  using assms
proof (induction cbs sel loop dsc processed trace rule: dispatch_loop.induct)
  case (1 cbs sel loop dsc processed trace)
  show ?case
  proof (cases "dsc \<le> max_fd loop \<and> processed < sel_ret sel")
    case False
    then show ?thesis using "1.prems" by (subst dispatch_loop.simps) auto
  next
    case True
    then have inb: "\<not> (dsc < 0 \<or> FD_SETSIZE \<le> dsc)" using "1.prems" by simp
    show ?thesis
    proof (cases "fd_data loop (nat dsc)")
      case None
      have "\<exists>loop' p tr. dispatch_loop cbs sel loop (dsc + 1) processed trace = Inr (loop', p, tr) \<and>
           int (length tr) - int (length trace) = p - processed \<and>
           p \<le> max processed (sel_ret sel) \<and> max_fd loop' < FD_SETSIZE"
        using "1.IH"(1)[OF True inb None] "1.prems" by simp
      then show ?thesis using True inb None by (subst dispatch_loop.simps) simp
    next
      case (Some data)
      let ?events = "(if nat dsc \<in> sel_read sel then EVENT_READ else 0)
                             OR (if nat dsc \<in> sel_write sel then EVENT_WRITE else 0)
                             OR (if nat dsc \<in> sel_error sel then EVENT_ERROR else 0)"
      show ?thesis
      proof (cases "callback data")
        case cbNone: None
        have "\<exists>loop' p tr. dispatch_loop cbs sel loop (dsc + 1) processed trace = Inr (loop', p, tr) \<and>
           int (length tr) - int (length trace) = p - processed \<and>
           p \<le> max processed (sel_ret sel) \<and> max_fd loop' < FD_SETSIZE"
          using "1.IH"(2)[OF True inb Some refl cbNone] "1.prems" by simp
        then show ?thesis using True inb Some cbNone by (subst dispatch_loop.simps) (simp add: Let_def)
      next
        case (Some k)
        note cbSome = this
        show ?thesis
        proof (cases "?events \<noteq> 0")
          case ev: True
          let ?loop1 = "cbs k dsc ?events (user_data data) loop"
          have m1: "max_fd ?loop1 < FD_SETSIZE" using "1.prems" by blast
          have "\<exists>loop' p tr. dispatch_loop cbs sel ?loop1 (dsc + 1) (processed + 1) (trace @ [(dsc, ?events)])
                   = Inr (loop', p, tr) \<and>
              int (length tr) - int (length (trace @ [(dsc, ?events)])) = p - (processed + 1) \<and>
              p \<le> max (processed + 1) (sel_ret sel) \<and> max_fd loop' < FD_SETSIZE"
            using "1.IH"(3)[OF True inb \<open>fd_data loop (nat dsc) = Some data\<close> refl cbSome ev m1] "1.prems"
            by simp
          then obtain loop' p tr where
            d: "dispatch_loop cbs sel ?loop1 (dsc + 1) (processed + 1) (trace @ [(dsc, ?events)])
                   = Inr (loop', p, tr)"
            and l: "int (length tr) - int (length (trace @ [(dsc, ?events)])) = p - (processed + 1)"
            and b: "p \<le> max (processed + 1) (sel_ret sel)" and m: "max_fd loop' < FD_SETSIZE"
            by blast
          have "dispatch_loop cbs sel loop dsc processed trace = Inr (loop', p, tr)"
            using True inb \<open>fd_data loop (nat dsc) = Some data\<close> cbSome ev d
            by (subst dispatch_loop.simps) (simp add: Let_def)
          moreover have "int (length tr) - int (length trace) = p - processed" using l by simp
          moreover have "p \<le> max processed (sel_ret sel)" using b True by simp
          ultimately show ?thesis using m by blast
        next
          case ev: False
          have "\<exists>loop' p tr. dispatch_loop cbs sel loop (dsc + 1) processed trace = Inr (loop', p, tr) \<and>
             int (length tr) - int (length trace) = p - processed \<and>
             p \<le> max processed (sel_ret sel) \<and> max_fd loop' < FD_SETSIZE"
            using "1.IH"(4)[OF True inb \<open>fd_data loop (nat dsc) = Some data\<close> refl cbSome ev] "1.prems"
            by simp
          then show ?thesis
            using True inb \<open>fd_data loop (nat dsc) = Some data\<close> cbSome ev
            by (subst dispatch_loop.simps) (simp add: Let_def)
        qed
      qed
    qed
  qed
qed

text \<open>
  C7, as the code has it. Let the registrations lie below \<^verbatim>\<open>FD_SETSIZE\<close>, before the
  call and after every callback (as \<^verbatim>\<open>event_loop_add\<close> keeps them). Then
  \<^verbatim>\<open>event_loop_run\<close> returns: 0, with no callback dispatched, when no descriptor is
  registered or when \<^verbatim>\<open>select\<close> was interrupted by a signal; \<open>-1\<close>, with no callback
  dispatched, when \<^verbatim>\<open>select\<close> failed otherwise; and else the count that \<^verbatim>\<open>select\<close>
  returned, which the number of callbacks dispatched never exceeds.
\<close>

theorem event_loop_run_result:
  assumes m: "max_fd loop < FD_SETSIZE"
    and cb: "\<forall>k d e u l. max_fd l < FD_SETSIZE \<longrightarrow> max_fd (cbs k d e u l) < FD_SETSIZE"
  shows "\<exists>rv trace loop'. event_loop_run cbs sel loop timeout_ms = Inr (rv, trace, loop') \<and>
           int (length trace) \<le> max 0 rv \<and>
           (max_fd loop < 0 \<longrightarrow> rv = 0 \<and> trace = []) \<and>
           (0 \<le> max_fd loop \<and> sel_ret sel < 0 \<longrightarrow>
              trace = [] \<and> rv = (if sel_errno sel = EINTR then 0 else - 1)) \<and>
           (0 \<le> max_fd loop \<and> 0 \<le> sel_ret sel \<longrightarrow> rv = sel_ret sel)"
proof (cases "max_fd loop < 0 \<or> sel_ret sel < 0")
  case True
  then show ?thesis by (auto simp: event_loop_run_def)
next
  case False
  obtain loop' p tr where d: "dispatch_loop cbs sel loop 0 0 [] = Inr (loop', p, tr)"
    and l: "int (length tr) - int (length ([] :: (int \<times> int) list)) = p - 0"
    and b: "p \<le> max 0 (sel_ret sel)"
    using dispatch_loop_total[OF m cb, of 0 sel 0 "[]"] by auto
  have "event_loop_run cbs sel loop timeout_ms = Inr (sel_ret sel, tr, loop')"
    using False d by (simp add: event_loop_run_def)
  moreover have "int (length tr) \<le> max 0 (sel_ret sel)" using l b by simp
  ultimately show ?thesis using False by auto
qed

text \<open>
  A reactor with descriptor 3 registered for reading and writing; an answer of
  \<^verbatim>\<open>select\<close> that reports it readable and writable, which counts 2; an answer that
  reports an interrupt; callbacks that leave the reactor alone.
\<close>

definition loop_fd3 :: event_loop where
  "loop_fd3 = fst (event_loop_add (event_loop_create 1024) 3 (EVENT_READ OR EVENT_WRITE) (Some 0) 0)"

definition sel_fd3_rw :: select_result where
  "sel_fd3_rw = \<lparr>sel_ret = 2, sel_errno = EINVAL, sel_read = {3}, sel_write = {3}, sel_error = {}\<rparr>"

definition sel_eintr :: select_result where
  "sel_eintr = \<lparr>sel_ret = - 1, sel_errno = EINTR, sel_read = {}, sel_write = {}, sel_error = {}\<rparr>"

definition no_callbacks :: callbacks where
  "no_callbacks k d e u l = l"

lemma loop_fd3_simps:
  "max_fd loop_fd3 = 3" "fd_data loop_fd3 0 = None" "fd_data loop_fd3 (Suc 0) = None"
  "fd_data loop_fd3 2 = None"
  "fd_data loop_fd3 3 = Some \<lparr>ev_fd = 3, ev_events = 3, user_data = 0, callback = Some 0\<rparr>"
  by (simp_all add: loop_fd3_def event_loop_add_def event_loop_create_def FD_SETSIZE_def
      EVENT_READ_def EVENT_WRITE_def)

theorem event_loop_run_result_witness:
  "(\<exists>trace loop'. event_loop_run no_callbacks sel_fd3_rw loop_fd3 1000 = Inr (2, trace, loop') \<and>
      int (length trace) \<le> 2) \<and>
   (\<exists>loop'. event_loop_run no_callbacks sel_eintr loop_fd3 1000 = Inr (0, [], loop')) \<and>
   (\<exists>loop'. event_loop_run no_callbacks sel_eintr (event_loop_create 1024) 1000 = Inr (0, [], loop'))"
proof -
  have cb: "\<forall>k d e u l. max_fd l < FD_SETSIZE \<longrightarrow> max_fd (no_callbacks k d e u l) < FD_SETSIZE"
    by (simp add: no_callbacks_def)
  have m3: "max_fd loop_fd3 < FD_SETSIZE" by (simp add: loop_fd3_simps FD_SETSIZE_def)
  have m0: "max_fd (event_loop_create 1024) < FD_SETSIZE"
    by (simp add: event_loop_create_def FD_SETSIZE_def)
  have 1: "\<exists>trace loop'. event_loop_run no_callbacks sel_fd3_rw loop_fd3 1000 = Inr (2, trace, loop') \<and>
      int (length trace) \<le> 2"
    using event_loop_run_result[OF m3 cb, of sel_fd3_rw 1000]
    by (auto simp: loop_fd3_simps sel_fd3_rw_def)
  have 2: "\<exists>loop'. event_loop_run no_callbacks sel_eintr loop_fd3 1000 = Inr (0, [], loop')"
    using event_loop_run_result[OF m3 cb, of sel_eintr 1000]
    by (auto simp: loop_fd3_simps sel_eintr_def)
  have 3: "\<exists>loop'. event_loop_run no_callbacks sel_eintr (event_loop_create 1024) 1000 = Inr (0, [], loop')"
    using event_loop_run_result[OF m0 cb, of sel_eintr 1000]
    by (auto simp: event_loop_create_def)
  from 1 2 3 show ?thesis by blast
qed

text \<open>
  C7 as the specification states it fails: descriptor 3 is readable and writable,
  \<^verbatim>\<open>event_loop_run\<close> returns 2 and has dispatched one callback.
\<close>

theorem event_loop_run_counts_ready_bits:
  "map_sum id (\<lambda>(rv, trace, loop'). (rv, trace)) (event_loop_run no_callbacks sel_fd3_rw loop_fd3 1000)
     = Inr (2, [(3, 3)])"
  by (simp add: event_loop_run_def loop_fd3_simps dispatch_loop.simps sel_fd3_rw_def
      FD_SETSIZE_def no_callbacks_def EVENT_READ_def EVENT_WRITE_def EVENT_ERROR_def)

section \<open>The sweep of the pool is idempotent\<close>

text \<open>The fields of a slot the sweep looks at.\<close>

definition slot_core :: "PooledConnection \<Rightarrow> int \<times> PoolConnState \<times> int \<times> int" where
  "slot_core c = (fd c, state c, created c, last_used c)"

definition evictable :: "(int \<Rightarrow> probe) \<Rightarrow> int \<Rightarrow> int \<Rightarrow> PooledConnection \<Rightarrow> bool" where
  "evictable sockets now ttl c \<longleftrightarrow>
     state c = POOL_CONN_FREE \<and> fd c \<ge> 0 \<and>
     ((ttl > 0 \<and> now - created c > ttl) \<or> now - last_used c > 30 \<or> \<not> conn_is_alive sockets (fd c))"

lemma evictable_core:
  "slot_core c = slot_core c' \<Longrightarrow> evictable sockets now ttl c = evictable sockets now ttl c'"
  by (simp add: slot_core_def evictable_def)

lemma set_lru_next_core [simp]:
  "slot_core (slots (set_lru_next p j v) ! k) = slot_core (slots p ! k)"
  "length (slots (set_lru_next p j v)) = length (slots p)"
  "ttl_seconds (set_lru_next p j v) = ttl_seconds p"
proof -
  show "slot_core (slots (set_lru_next p j v) ! k) = slot_core (slots p ! k)"
  proof (cases "j < length (slots p)")
    case True
    then show ?thesis by (cases "k = j") (simp_all add: set_lru_next_def slot_core_def)
  next
    case False
    then show ?thesis by (simp add: set_lru_next_def list_update_beyond)
  qed
qed (simp_all add: set_lru_next_def)

lemma set_lru_prev_core [simp]:
  "slot_core (slots (set_lru_prev p j v) ! k) = slot_core (slots p ! k)"
  "length (slots (set_lru_prev p j v)) = length (slots p)"
  "ttl_seconds (set_lru_prev p j v) = ttl_seconds p"
proof -
  show "slot_core (slots (set_lru_prev p j v) ! k) = slot_core (slots p ! k)"
  proof (cases "j < length (slots p)")
    case True
    then show ?thesis by (cases "k = j") (simp_all add: set_lru_prev_def slot_core_def)
  next
    case False
    then show ?thesis by (simp add: set_lru_prev_def list_update_beyond)
  qed
qed (simp_all add: set_lru_prev_def)

lemma lru_remove_core [simp]:
  "slot_core (slots (lru_remove p i) ! k) = slot_core (slots p ! k)"
  "length (slots (lru_remove p i)) = length (slots p)"
  "ttl_seconds (lru_remove p i) = ttl_seconds p"
  by (simp_all add: lru_remove_def Let_def split: option.splits)

lemma cleanup_body_keep:
  "\<not> evictable sockets now (ttl_seconds p) (slots p ! i) \<Longrightarrow>
     cleanup_body sockets now i (p, ev, cl) = (p, ev, cl)"
  by (auto simp: cleanup_body_def evictable_def Let_def)

lemma cleanup_fold_keep:
  "\<forall>i\<in>set is. \<not> evictable sockets now (ttl_seconds p) (slots p ! i) \<Longrightarrow>
     fold (cleanup_body sockets now) is (p, ev, cl) = (p, ev, cl)"
  by (induction "is") (simp_all add: cleanup_body_keep)

text \<open>After the sweep has passed slot \<open>i\<close>, the slot is not evictable any more.\<close>

lemma cleanup_body_step:
  assumes "i < length (slots p)"
    and "cleanup_body sockets now i (p, ev, cl) = (p', ev', cl')"
  shows "length (slots p') = length (slots p) \<and> ttl_seconds p' = ttl_seconds p \<and>
         \<not> evictable sockets now (ttl_seconds p') (slots p' ! i) \<and>
         (\<forall>k. k \<noteq> i \<longrightarrow> slot_core (slots p' ! k) = slot_core (slots p ! k))"
proof (cases "evictable sockets now (ttl_seconds p) (slots p ! i)")
  case False
  then show ?thesis using assms by (simp add: cleanup_body_keep)
next
  case True
  let ?p1 = "p\<lparr>slots := (slots p)[i := (slots p ! i)\<lparr>fd := - 1\<rparr>]\<rparr>"
  let ?p2 = "lru_remove ?p1 i"
  have p': "p' = ?p2\<lparr>current_size := current_size ?p2 - 1, pool_evictions := pool_evictions ?p2 + 1\<rparr>"
    using True assms(2) by (auto simp: cleanup_body_def evictable_def Let_def)
  have core1: "slot_core (slots p' ! k) = slot_core (slots ?p1 ! k)" for k
    by (simp add: p')
  have "fd (slots p' ! i) = - 1"
    using core1[of i] assms(1) by (simp add: slot_core_def)
  then have "\<not> evictable sockets now (ttl_seconds p') (slots p' ! i)"
    by (simp add: evictable_def)
  moreover have "\<forall>k. k \<noteq> i \<longrightarrow> slot_core (slots p' ! k) = slot_core (slots p ! k)"
    using core1 by simp
  moreover have "length (slots p') = length (slots p)" "ttl_seconds p' = ttl_seconds p"
    by (simp_all add: p')
  ultimately show ?thesis by simp
qed

lemma cleanup_fold_prefix:
  assumes "n \<le> length (slots p)"
    and "fold (cleanup_body sockets now) [0..<n] (p, ev, cl) = (p', ev', cl')"
  shows "length (slots p') = length (slots p) \<and> ttl_seconds p' = ttl_seconds p \<and>
         (\<forall>i<n. \<not> evictable sockets now (ttl_seconds p') (slots p' ! i)) \<and>
         (\<forall>k\<ge>n. slot_core (slots p' ! k) = slot_core (slots p ! k))"
  using assms
proof (induction n arbitrary: p' ev' cl')
  case 0
  then show ?case by simp
next
  case (Suc n)
  obtain q ev1 cl1 where f: "fold (cleanup_body sockets now) [0..<n] (p, ev, cl) = (q, ev1, cl1)"
    by (metis prod_cases3)
  have nle: "n \<le> length (slots p)" using Suc.prems(1) by simp
  have ih: "length (slots q) = length (slots p)" "ttl_seconds q = ttl_seconds p"
    "\<forall>i<n. \<not> evictable sockets now (ttl_seconds q) (slots q ! i)"
    "\<forall>k\<ge>n. slot_core (slots q ! k) = slot_core (slots p ! k)"
    using Suc.IH[OF nle f] by blast+
  have st: "cleanup_body sockets now n (q, ev1, cl1) = (p', ev', cl')"
    using Suc.prems(2) f by simp
  have nlt: "n < length (slots q)" using Suc.prems(1) ih(1) by simp
  have s: "length (slots p') = length (slots q)" "ttl_seconds p' = ttl_seconds q"
    "\<not> evictable sockets now (ttl_seconds p') (slots p' ! n)"
    "\<forall>k. k \<noteq> n \<longrightarrow> slot_core (slots p' ! k) = slot_core (slots q ! k)"
    using cleanup_body_step[OF nlt st] by blast+
  have "\<forall>i<Suc n. \<not> evictable sockets now (ttl_seconds p') (slots p' ! i)"
  proof (intro allI impI)
    fix i assume "i < Suc n"
    show "\<not> evictable sockets now (ttl_seconds p') (slots p' ! i)"
    proof (cases "i = n")
      case True
      then show ?thesis using s(3) by simp
    next
      case False
      then have "i < n" using \<open>i < Suc n\<close> by simp
      then have "\<not> evictable sockets now (ttl_seconds q) (slots q ! i)" using ih(3) by simp
      moreover have "slot_core (slots p' ! i) = slot_core (slots q ! i)" using s(4) False by simp
      ultimately show ?thesis using evictable_core s(2) by metis
    qed
  qed
  moreover have "\<forall>k\<ge>Suc n. slot_core (slots p' ! k) = slot_core (slots p ! k)"
    using s(4) ih(4) by simp
  ultimately show ?case using s(1,2) ih(1,2) by simp
qed

text \<open>
  C9. For every pool, every reading of the clock and every state of the sockets, a
  second \<^verbatim>\<open>conn_pool_cleanup\<close> right after a first one, at the same reading and with
  the same answers of the liveness probe, returns 0, closes no descriptor and leaves the
  pool as the first sweep left it.
\<close>

theorem conn_pool_cleanup_idempotent:
  "conn_pool_cleanup sockets now (fst (conn_pool_cleanup sockets now pool))
     = (fst (conn_pool_cleanup sockets now pool), 0, [])"
proof -
  obtain p' ev' cl' where f: "conn_pool_cleanup sockets now pool = (p', ev', cl')"
    by (metis prod_cases3)
  then have "fold (cleanup_body sockets now) [0..<length (slots pool)] (pool, 0, []) = (p', ev', cl')"
    by (simp add: conn_pool_cleanup_def)
  from cleanup_fold_prefix[OF le_refl this]
  have len: "length (slots p') = length (slots pool)"
    and no: "\<forall>i<length (slots pool). \<not> evictable sockets now (ttl_seconds p') (slots p' ! i)"
    by blast+
  have "fold (cleanup_body sockets now) [0..<length (slots p')] (p', 0, []) = (p', 0, [])"
    using no len by (intro cleanup_fold_keep) simp
  then show ?thesis using f by (simp add: conn_pool_cleanup_def)
qed

section \<open>Rounding to double precision\<close>

subsection \<open>The exponent and the nearest integer\<close>

lemma find_exponent_spec:
  "lo \<le> hi \<Longrightarrow>
   lo \<le> find_exponent lo hi a \<and> find_exponent lo hi a \<le> hi \<and>
   (lo < find_exponent lo hi a \<longrightarrow> 2 powi find_exponent lo hi a \<le> a) \<and>
   (find_exponent lo hi a < hi \<longrightarrow> a < 2 powi (find_exponent lo hi a + 1))"
proof (induction lo hi a rule: find_exponent.induct)
  case (1 lo hi a)
  show ?case
  proof (cases "hi \<le> lo")
    case True
    then show ?thesis using "1.prems" by (subst (1 2 3 4 5 6) find_exponent.simps) simp
  next
    case False
    define mid where "mid = (lo + hi + 1) div 2"
    have m: "lo < mid" "mid \<le> hi" using False by (simp_all add: mid_def)
    show ?thesis
    proof (cases "2 powi mid \<le> a")
      case True
      have eq: "find_exponent lo hi a = find_exponent mid hi a"
        using False True by (subst find_exponent.simps) (simp add: mid_def Let_def)
      have ih: "mid \<le> find_exponent mid hi a \<and> find_exponent mid hi a \<le> hi \<and>
         (mid < find_exponent mid hi a \<longrightarrow> 2 powi find_exponent mid hi a \<le> a) \<and>
         (find_exponent mid hi a < hi \<longrightarrow> a < 2 powi (find_exponent mid hi a + 1))"
        using "1.IH"(1)[OF False mid_def True] m by simp
      show ?thesis
        unfolding eq using ih m True by (cases "find_exponent mid hi a = mid") auto
    next
      case nt: False
      have eq: "find_exponent lo hi a = find_exponent lo (mid - 1) a"
        using False nt by (subst find_exponent.simps) (simp add: mid_def Let_def)
      have ih: "lo \<le> find_exponent lo (mid - 1) a \<and> find_exponent lo (mid - 1) a \<le> mid - 1 \<and>
         (lo < find_exponent lo (mid - 1) a \<longrightarrow> 2 powi find_exponent lo (mid - 1) a \<le> a) \<and>
         (find_exponent lo (mid - 1) a < mid - 1 \<longrightarrow> a < 2 powi (find_exponent lo (mid - 1) a + 1))"
        using "1.IH"(2)[OF False mid_def nt] m by simp
      show ?thesis
        unfolding eq using ih m nt
        by (cases "find_exponent lo (mid - 1) a = mid - 1") auto
    qed
  qed
qed

lemma expo_range: "- 1022 \<le> expo a" "expo a \<le> 1023"
  using find_exponent_spec[of "- 1022" 1023 a] by (simp_all add: expo_def)

lemma expo_lower: "- 1022 < expo a \<Longrightarrow> 2 powi expo a \<le> a"
  using find_exponent_spec[of "- 1022" 1023 a] by (simp add: expo_def)

lemma expo_upper: "expo a < 1023 \<Longrightarrow> a < 2 powi (expo a + 1)"
  using find_exponent_spec[of "- 1022" 1023 a] by (simp add: expo_def)

lemma two_powi_mono: "m \<le> n \<Longrightarrow> (2::rat) powi m \<le> 2 powi n"
  by (rule power_int_increasing) simp_all

lemma two_powi_le_cancel: "(2::rat) powi m \<le> 2 powi n \<Longrightarrow> m \<le> n"
proof (rule ccontr)
  assume a: "(2::rat) powi m \<le> 2 powi n" and "\<not> m \<le> n"
  then have "n < m" by simp
  then have "(2::rat) powi n < 2 powi m" by (rule power_int_strict_increasing) simp
  with a show False by simp
qed

lemma expo_mono:
  assumes "a \<le> b"
  shows "expo a \<le> expo b"
proof (rule ccontr)
  assume "\<not> expo a \<le> expo b"
  then have lt: "expo b < expo a" by simp
  then have "- 1022 < expo a" using expo_range(1)[of b] by simp
  then have 1: "2 powi expo a \<le> a" by (rule expo_lower)
  have "expo b < 1023" using lt expo_range(2)[of a] by simp
  then have 2: "b < 2 powi (expo b + 1)" by (rule expo_upper)
  have "(2::rat) powi (expo b + 1) \<le> 2 powi expo a" using lt by (intro two_powi_mono) simp
  with 1 2 assms show False by simp
qed

lemma expo_unique:
  assumes "- 1022 \<le> e" "e \<le> 1023"
    and lo: "e = - 1022 \<or> 2 powi e \<le> a"
    and hi: "e = 1023 \<or> a < 2 powi (e + 1)"
  shows "expo a = e"
proof (rule ccontr)
  assume ne: "expo a \<noteq> e"
  show False
  proof (cases "expo a < e")
    case True
    then have "2 powi e \<le> a" using lo expo_range(1)[of a] by auto
    moreover have "a < 2 powi (expo a + 1)" using True assms(2) by (intro expo_upper) simp
    moreover have "(2::rat) powi (expo a + 1) \<le> 2 powi e" using True by (intro two_powi_mono) simp
    ultimately show False by simp
  next
    case False
    then have gt: "e < expo a" using ne by simp
    then have "2 powi expo a \<le> a" using assms(1) by (intro expo_lower) simp
    moreover have "a < 2 powi (e + 1)" using gt hi expo_range(2)[of a] by auto
    moreover have "(2::rat) powi (e + 1) \<le> 2 powi expo a" using gt by (intro two_powi_mono) simp
    ultimately show False by simp
  qed
qed

lemma rne_of_int [simp]: "rne (of_int k) = k"
  by (simp add: rne_def)

lemma rne_0 [simp]: "rne 0 = 0"
  using rne_of_int[of 0] by simp

lemma rne_le: "z \<le> of_int j \<Longrightarrow> rne z \<le> j"
proof -
  assume a: "z \<le> of_int j"
  show ?thesis
  proof (cases "z = of_int \<lfloor>z\<rfloor>")
    case True
    then have "rne z = \<lfloor>z\<rfloor>" by (simp add: rne_def)
    moreover have "\<lfloor>z\<rfloor> \<le> j" using a by (simp add: floor_le_iff)
    ultimately show ?thesis by simp
  next
    case False
    then have "of_int \<lfloor>z\<rfloor> < z" by (auto simp: less_le)
    then have "of_int \<lfloor>z\<rfloor> < (of_int j :: rat)" using a by simp
    then have "\<lfloor>z\<rfloor> < j" by simp
    moreover have "rne z \<le> \<lfloor>z\<rfloor> + 1" by (simp add: rne_def Let_def)
    ultimately show ?thesis by simp
  qed
qed

lemma rne_ge: "of_int j \<le> z \<Longrightarrow> j \<le> rne z"
proof -
  assume "of_int j \<le> z"
  then have "j \<le> \<lfloor>z\<rfloor>" by (simp add: le_floor_iff)
  moreover have "\<lfloor>z\<rfloor> \<le> rne z" by (simp add: rne_def Let_def)
  ultimately show ?thesis by simp
qed

lemma rne_near:
  assumes "\<bar>z - of_int n\<bar> < 1 / 2"
  shows "rne z = n"
proof (cases "of_int n \<le> z")
  case True
  then have f: "\<lfloor>z\<rfloor> = n" using assms by (intro floor_unique) simp_all
  show ?thesis using assms True by (simp add: rne_def f)
next
  case False
  then have f: "\<lfloor>z\<rfloor> = n - 1" using assms by (intro floor_unique) simp_all
  show ?thesis using assms False by (simp add: rne_def f)
qed

lemma ulp_pos [simp]: "0 < ulp a"
  by (simp add: ulp_def)

lemma ulp_nonzero [simp]: "ulp a \<noteq> 0"
  by (simp add: ulp_def)

lemma ulp_nonneg [simp]: "0 \<le> ulp a"
  by (simp add: ulp_def)

lemma two_powi_int: "0 \<le> k \<Longrightarrow> (2::rat) powi k = of_int (2 ^ nat k)"
  by (simp add: power_int_def)

lemma round_mag_multiple:
  assumes "a / ulp a = of_int k"
  shows "round_mag a = a"
proof -
  have e: "of_int k * ulp a = a" using assms by (simp add: field_simps)
  have r: "rne (a / ulp a) = k" using assms by simp
  show ?thesis unfolding round_mag_def by (simp only: r e)
qed

lemma round_mag_fixed_int:
  assumes "round_mag a = a"
  shows "a / ulp a = of_int (rne (a / ulp a))"
proof -
  have "of_int (rne (a / ulp a)) * ulp a = a" using assms by (simp add: round_mag_def)
  then show ?thesis by (simp add: field_simps)
qed

lemma round_mag_nonneg: "0 \<le> a \<Longrightarrow> 0 \<le> round_mag a"
proof -
  assume "0 \<le> a"
  then have "(of_int 0 :: rat) \<le> a / ulp a" by simp
  then have "0 \<le> rne (a / ulp a)" by (rule rne_ge)
  then show ?thesis by (simp add: round_mag_def)
qed

lemma ulp_ratio:
  assumes "expo x \<le> expo y"
  shows "ulp y / ulp x = of_int (2 ^ nat (expo y - expo x))"
proof -
  have "ulp y / ulp x = 2 powi (expo y - 52 - (expo x - 52))"
    unfolding ulp_def by (subst power_int_diff) simp_all
  also have "\<dots> = 2 powi (expo y - expo x)" by simp
  also have "\<dots> = of_int (2 ^ nat (expo y - expo x))" using assms by (intro two_powi_int) simp
  finally show ?thesis .
qed

lemma round_mag_le:
  assumes "0 \<le> x" "x \<le> y" "round_mag y = y"
  shows "round_mag x \<le> y"
proof -
  have e: "expo x \<le> expo y" using assms(2) by (rule expo_mono)
  have "y / ulp x = (y / ulp y) * (ulp y / ulp x)" by simp
  also have "\<dots> = of_int (rne (y / ulp y)) * of_int (2 ^ nat (expo y - expo x))"
    using round_mag_fixed_int[OF assms(3)] ulp_ratio[OF e] by simp
  finally have yi: "y / ulp x = of_int (rne (y / ulp y) * 2 ^ nat (expo y - expo x))" by simp
  have "x / ulp x \<le> y / ulp x" using assms(2) by (simp add: divide_right_mono)
  then have "rne (x / ulp x) \<le> rne (y / ulp y) * 2 ^ nat (expo y - expo x)"
    unfolding yi by (rule rne_le)
  then have "(of_int (rne (x / ulp x)) :: rat) \<le> of_int (rne (y / ulp y) * 2 ^ nat (expo y - expo x))"
    by (simp only: of_int_le_iff)
  then have "of_int (rne (x / ulp x)) \<le> y / ulp x" using yi by simp
  then show ?thesis by (simp add: round_mag_def field_simps)
qed

lemma round_mag_ge:
  assumes "0 \<le> y" "y \<le> x" "round_mag y = y"
  shows "y \<le> round_mag x"
proof (cases "expo y = expo x")
  case True
  then have u: "ulp y = ulp x" by (simp add: ulp_def)
  have yi: "y / ulp x = of_int (rne (y / ulp y))"
    using round_mag_fixed_int[OF assms(3)] u by simp
  have "y / ulp x \<le> x / ulp x" using assms(2) by (simp add: divide_right_mono)
  then have "rne (y / ulp y) \<le> rne (x / ulp x)" unfolding yi by (rule rne_ge)
  then have "(of_int (rne (y / ulp y)) :: rat) \<le> of_int (rne (x / ulp x))"
    by (simp only: of_int_le_iff)
  then have "y / ulp x \<le> of_int (rne (x / ulp x))" using yi by simp
  then show ?thesis by (simp add: round_mag_def field_simps)
next
  case False
  then have lt: "expo y < expo x" using expo_mono[OF assms(2)] by simp
  then have "- 1022 < expo x" using expo_range(1)[of y] by simp
  then have lo: "2 powi expo x \<le> x" by (rule expo_lower)
  have "2 powi expo x / ulp x = 2 powi (expo x - (expo x - 52))"
    unfolding ulp_def by (subst power_int_diff) simp_all
  also have "\<dots> = of_int (2 ^ 52)" by simp
  finally have q: "2 powi expo x / ulp x = of_int (2 ^ 52)" .
  have "2 powi expo x / ulp x \<le> x / ulp x" using lo by (simp add: divide_right_mono)
  then have "2 ^ 52 \<le> rne (x / ulp x)" unfolding q by (rule rne_ge)
  then have "(of_int (2 ^ 52) :: rat) \<le> of_int (rne (x / ulp x))" by (simp only: of_int_le_iff)
  then have "2 powi expo x / ulp x \<le> of_int (rne (x / ulp x))" using q by simp
  then have r: "2 powi expo x \<le> round_mag x" by (simp add: round_mag_def field_simps)
  have "expo y < 1023" using lt expo_range(2)[of x] by simp
  then have "y < 2 powi (expo y + 1)" by (rule expo_upper)
  moreover have "(2::rat) powi (expo y + 1) \<le> 2 powi expo x" using lt by (intro two_powi_mono) simp
  ultimately show ?thesis using r by simp
qed

lemma round_mag_0 [simp]: "round_mag 0 = 0"
  by (simp add: round_mag_def)

lemma round_mag_idem:
  assumes "0 \<le> a"
  shows "round_mag (round_mag a) = round_mag a"
proof -
  define n where "n = rne (a / ulp a)"
  define m where "m = round_mag a"
  have m: "m = of_int n * ulp a" by (simp add: m_def n_def round_mag_def)
  have n0: "0 \<le> n" unfolding n_def using assms by (intro rne_ge) simp
  have "m / ulp m = of_int n * (ulp a / ulp m)" by (simp add: m)
  have "\<exists>k. m / ulp m = of_int k"
  proof (cases "expo m \<le> expo a")
    case True
    have "m / ulp m = of_int n * (ulp a / ulp m)" by (simp add: m)
    also have "\<dots> = of_int (n * 2 ^ nat (expo a - expo m))"
      using ulp_ratio[OF True] by simp
    finally show ?thesis by blast
  next
    case False
    then have gt: "expo a < expo m" by simp
    then have "expo a < 1023" using expo_range(2)[of m] by simp
    then have "a < 2 powi (expo a + 1)" by (rule expo_upper)
    then have "a / ulp a < 2 powi (expo a + 1) / ulp a" by (simp add: divide_strict_right_mono)
    also have "2 powi (expo a + 1) / ulp a = 2 powi (expo a + 1 - (expo a - 52))"
      unfolding ulp_def by (subst power_int_diff) simp_all
    also have "\<dots> = of_int (2 ^ 53)" by simp
    finally have "a / ulp a \<le> of_int (2 ^ 53)" by simp
    then have nle: "n \<le> 2 ^ 53" unfolding n_def by (rule rne_le)
    have "- 1022 < expo m" using gt expo_range(1)[of a] by simp
    then have "2 powi expo m \<le> m" by (rule expo_lower)
    then have "2 powi expo m / ulp a \<le> m / ulp a" by (simp add: divide_right_mono)
    moreover have "m / ulp a = of_int n" by (simp add: m)
    moreover have "2 powi expo m / ulp a = 2 powi (expo m - (expo a - 52))"
      unfolding ulp_def by (subst power_int_diff) simp_all
    ultimately have low: "(2::rat) powi (expo m - expo a + 52) \<le> of_int n"
      by (simp add: algebra_simps)
    have "(2::rat) powi 53 \<le> 2 powi (expo m - expo a + 52)"
      using gt by (intro two_powi_mono) simp
    with low have "(of_int (2 ^ 53) :: rat) \<le> of_int n" by simp
    then have "2 ^ 53 \<le> n" by (simp only: of_int_le_iff)
    with nle have n: "n = 2 ^ 53" by simp
    have "(2::rat) powi (expo m - expo a + 52) \<le> 2 powi 53" using low n by simp
    then have "expo m - expo a + 52 \<le> 53" by (rule two_powi_le_cancel)
    with gt have em: "expo m = expo a + 1" by simp
    have "ulp a / ulp m = 2 powi (expo a - 52 - (expo m - 52))"
      unfolding ulp_def by (subst power_int_diff) simp_all
    also have "\<dots> = 2 powi (- 1)" by (simp add: em)
    finally have "ulp a / ulp m = 1 / 2" by simp
    then have "m / ulp m = of_int (2 ^ 53) * (1 / 2)" by (simp add: m n)
    also have "\<dots> = of_int (2 ^ 52)" by simp
    finally show ?thesis by blast
  qed
  then obtain k where "m / ulp m = of_int k" ..
  then have "round_mag m = m" by (rule round_mag_multiple)
  then show ?thesis by (simp add: m_def)
qed


lemma round_mag_repr:
  assumes x: "x = of_int k * 2 powi j" and k: "0 \<le> k" "k < 2 ^ 53" and j: "- 1074 \<le> j"
  shows "round_mag x = x"
proof -
  have "expo x - 52 \<le> j"
  proof (cases "expo x = - 1022")
    case True
    then show ?thesis using j by simp
  next
    case False
    then have "- 1022 < expo x" using expo_range(1)[of x] by simp
    then have "2 powi expo x \<le> x" by (rule expo_lower)
    also have "x < of_int (2 ^ 53) * 2 powi j"
    proof -
      have "(of_int k :: rat) < of_int (2 ^ 53)" using k by (simp only: of_int_less_iff)
      then show ?thesis unfolding x by (intro mult_strict_right_mono) simp_all
    qed
    also have "of_int (2 ^ 53) * 2 powi j = (2::rat) powi (53 + j)"
      by (subst power_int_add) simp_all
    finally have "(2::rat) powi expo x \<le> 2 powi (53 + j)" by simp
    then have "expo x \<le> 53 + j" by (rule two_powi_le_cancel)
    moreover have "expo x \<noteq> 53 + j"
    proof
      assume "expo x = 53 + j"
      then have "(2::rat) powi (53 + j) \<le> x" using \<open>2 powi expo x \<le> x\<close> by simp
      moreover have "x < (2::rat) powi (53 + j)"
        using \<open>x < of_int (2 ^ 53) * 2 powi j\<close> \<open>of_int (2 ^ 53) * 2 powi j = (2::rat) powi (53 + j)\<close>
        by simp
      ultimately show False by simp
    qed
    ultimately show ?thesis by simp
  qed
  then have e: "0 \<le> j - (expo x - 52)" by simp
  have "x / ulp x = of_int k * (2 powi j / 2 powi (expo x - 52))" by (simp add: x ulp_def)
  also have "2 powi j / 2 powi (expo x - 52) = (2::rat) powi (j - (expo x - 52))"
    by (subst power_int_diff) simp_all
  also have "\<dots> = of_int (2 ^ nat (j - (expo x - 52)))" using e by (rule two_powi_int)
  finally have "x / ulp x = of_int (k * 2 ^ nat (j - (expo x - 52)))" by simp
  then show ?thesis by (rule round_mag_multiple)
qed

lemma round_mag_int:
  assumes "0 \<le> k" "k < 2 ^ 53"
  shows "round_mag (of_int k) = of_int k"
  using round_mag_repr[of "of_int k" k 0] assms by simp

lemma round_mag_minus_one:
  assumes fx: "round_mag t = t" and t: "1 \<le> t" "t < 2 ^ 53"
  shows "round_mag (t - 1) = t - 1"
proof -
  have e52: "expo t \<le> 52"
  proof (rule ccontr)
    assume "\<not> expo t \<le> 52"
    then have "53 \<le> expo t" by simp
    then have "(2::rat) powi 53 \<le> 2 powi expo t" by (rule two_powi_mono)
    moreover have "2 powi expo t \<le> t" using \<open>53 \<le> expo t\<close> by (intro expo_lower) simp
    ultimately show False using t by simp
  qed
  have ex: "expo (t - 1) \<le> expo t" by (rule expo_mono) simp
  have "(t - 1) / ulp (t - 1) = (t / ulp t) * (ulp t / ulp (t - 1)) - 1 / ulp (t - 1)"
    by (simp add: diff_divide_distrib)
  also have "1 / ulp (t - 1) = 2 powi (0 - (expo (t - 1) - 52))"
    unfolding ulp_def by (subst power_int_diff) simp_all
  also have "\<dots> = of_int (2 ^ nat (52 - expo (t - 1)))"
    using ex e52 by (subst two_powi_int) simp_all
  finally have "(t - 1) / ulp (t - 1) =
      of_int (rne (t / ulp t) * 2 ^ nat (expo t - expo (t - 1)) - 2 ^ nat (52 - expo (t - 1)))"
    using round_mag_fixed_int[OF fx] ulp_ratio[OF ex] by simp
  then show ?thesis by (rule round_mag_multiple)
qed

lemma round_mag_near:
  assumes e: "- 1022 \<le> e" "e \<le> 1023" and lo: "2 powi e \<le> a" and hi: "a < 2 powi (e + 1)"
    and n: "\<bar>a / 2 powi (e - 52) - of_int n\<bar> < 1 / 2"
  shows "round_mag a = of_int n * 2 powi (e - 52)"
proof -
  have "expo a = e" using e lo hi by (intro expo_unique) simp_all
  then have u: "ulp a = 2 powi (e - 52)" by (simp add: ulp_def)
  have "rne (a / ulp a) = n" unfolding u using n by (rule rne_near)
  then show ?thesis by (simp add: round_mag_def u)
qed

subsection \<open>Rounding\<close>

text \<open>
  A double is a fixed point of \<open>dround\<close>. Rounding is exact on the doubles, keeps the
  order against a double on either side, and is exact for the integers below \<open>2\<^sup>5\<^sup>3\<close>.
\<close>

lemma dround_0 [simp]: "dround 0 = Fin 0"
  by (simp add: dround_def)

lemma dround_exact:
  assumes "round_mag \<bar>x\<bar> = \<bar>x\<bar>" "\<bar>x\<bar> < 2 ^ 1024"
  shows "dround x = Fin x"
proof -
  have "sgn x * \<bar>x\<bar> = x" by (simp add: sgn_if)
  then show ?thesis using assms by (simp add: dround_def)
qed

lemma dround_fixed_iff:
  "dround x = Fin x \<longleftrightarrow> round_mag \<bar>x\<bar> = \<bar>x\<bar> \<and> \<bar>x\<bar> < 2 ^ 1024"
proof
  assume d: "dround x = Fin x"
  then have lt: "\<not> 2 ^ 1024 \<le> round_mag \<bar>x\<bar>" and eq: "sgn x * round_mag \<bar>x\<bar> = x"
    by (simp_all add: dround_def split: if_splits)
  have "round_mag \<bar>x\<bar> = \<bar>x\<bar>"
  proof (cases "x = 0")
    case True then show ?thesis by simp
  next
    case False
    have "\<bar>sgn x * round_mag \<bar>x\<bar>\<bar> = \<bar>x\<bar>" using eq by simp
    then show ?thesis using False round_mag_nonneg[of "\<bar>x\<bar>"] by (simp add: abs_mult)
  qed
  then show "round_mag \<bar>x\<bar> = \<bar>x\<bar> \<and> \<bar>x\<bar> < 2 ^ 1024" using lt by simp
next
  assume "round_mag \<bar>x\<bar> = \<bar>x\<bar> \<and> \<bar>x\<bar> < 2 ^ 1024"
  then show "dround x = Fin x" by (simp add: dround_exact)
qed

lemma dround_int:
  assumes "\<bar>k\<bar> < 2 ^ 53"
  shows "dround (of_int k) = Fin (of_int k)"
proof (rule dround_exact)
  have "round_mag (of_int \<bar>k\<bar>) = of_int \<bar>k\<bar>" using assms by (intro round_mag_int) simp_all
  then show "round_mag \<bar>of_int k\<bar> = \<bar>of_int k :: rat\<bar>" by simp
  have "(of_int \<bar>k\<bar> :: rat) < of_int (2 ^ 53)" using assms by (simp only: of_int_less_iff)
  also have "\<dots> < 2 ^ 1024" by simp
  finally show "\<bar>of_int k :: rat\<bar> < 2 ^ 1024" by simp
qed

lemma dround_repr:
  assumes "\<bar>x\<bar> = of_int k * 2 powi j" "0 \<le> k" "k < 2 ^ 53" "- 1074 \<le> j" "\<bar>x\<bar> < 2 ^ 1024"
  shows "dround x = Fin x"
  using assms by (intro dround_exact round_mag_repr[of _ k j]) simp_all

lemma dround_near:
  assumes "- 1022 \<le> e" "e \<le> 1023" "2 powi e \<le> \<bar>x\<bar>" "\<bar>x\<bar> < 2 powi (e + 1)"
    and "\<bar>\<bar>x\<bar> / 2 powi (e - 52) - of_int n\<bar> < 1 / 2"
    and "of_int n * 2 powi (e - 52) < (2 :: rat) ^ 1024"
  shows "dround x = Fin (sgn x * (of_int n * 2 powi (e - 52)))"
proof -
  have "round_mag \<bar>x\<bar> = of_int n * 2 powi (e - 52)" using assms(1-5) by (rule round_mag_near)
  then show ?thesis using assms(6) by (simp add: dround_def)
qed

lemma dround_nonneg:
  assumes "0 \<le> x"
  shows "dround x = PInf \<or> (\<exists>v. dround x = Fin v \<and> 0 \<le> v)"
proof (cases "2 ^ 1024 \<le> round_mag \<bar>x\<bar>")
  case True
  then have "0 < x" using assms by (cases "x = 0") simp_all
  then show ?thesis using True by (simp add: dround_def)
next
  case False
  then have "dround x = Fin (sgn x * round_mag \<bar>x\<bar>)" by (simp add: dround_def)
  moreover have "0 \<le> sgn x * round_mag \<bar>x\<bar>"
    using assms round_mag_nonneg[of "\<bar>x\<bar>"] by (simp add: sgn_if)
  ultimately show ?thesis by simp
qed

lemma dround_le:
  assumes "0 \<le> x" "x \<le> y" "dround y = Fin y"
  shows "\<exists>v. dround x = Fin v \<and> 0 \<le> v \<and> v \<le> y"
proof -
  have y: "round_mag y = y" "y < 2 ^ 1024" using assms dround_fixed_iff[of y] by simp_all
  have "round_mag x \<le> y" using assms(1,2) y(1) by (rule round_mag_le)
  then have "\<not> 2 ^ 1024 \<le> round_mag \<bar>x\<bar>" using y(2) assms(1) by simp
  then have "dround x = Fin (sgn x * round_mag \<bar>x\<bar>)" by (simp add: dround_def)
  moreover have "sgn x * round_mag \<bar>x\<bar> = round_mag x" using assms(1) by (cases "x = 0") simp_all
  ultimately show ?thesis using \<open>round_mag x \<le> y\<close> round_mag_nonneg[OF assms(1)] by simp
qed

lemma dround_ge:
  assumes "0 \<le> y" "y \<le> x" "dround y = Fin y"
  shows "dround x = PInf \<or> (\<exists>v. dround x = Fin v \<and> y \<le> v)"
proof -
  have y: "round_mag y = y" using assms dround_fixed_iff[of y] by simp
  have x: "0 \<le> x" using assms by simp
  have ge: "y \<le> round_mag x" using assms(1,2) y by (rule round_mag_ge)
  show ?thesis
  proof (cases "2 ^ 1024 \<le> round_mag \<bar>x\<bar>")
    case True
    then have "0 < x" using x by (cases "x = 0") simp_all
    then show ?thesis using True by (simp add: dround_def)
  next
    case False
    then have "dround x = Fin (sgn x * round_mag \<bar>x\<bar>)" by (simp add: dround_def)
    moreover have "sgn x * round_mag \<bar>x\<bar> = round_mag x" using x by (cases "x = 0") simp_all
    ultimately show ?thesis using ge by simp
  qed
qed

lemma dround_idem:
  assumes "dround x = Fin v"
  shows "dround v = Fin v"
proof -
  have lt: "\<not> 2 ^ 1024 \<le> round_mag \<bar>x\<bar>" and v: "v = sgn x * round_mag \<bar>x\<bar>"
    using assms by (simp_all add: dround_def split: if_splits)
  have av: "\<bar>v\<bar> = round_mag \<bar>x\<bar>"
  proof (cases "x = 0")
    case True then show ?thesis using v by simp
  next
    case False
    then show ?thesis using v round_mag_nonneg[of "\<bar>x\<bar>"] by (simp add: abs_mult)
  qed
  have "round_mag \<bar>v\<bar> = \<bar>v\<bar>" unfolding av by (rule round_mag_idem) simp
  moreover have "\<bar>v\<bar> < 2 ^ 1024" using lt av by simp
  ultimately show ?thesis by (rule dround_exact)
qed

lemma dround_minus_one:
  assumes "dround t = Fin t" "1 \<le> t" "t < 2 ^ 53"
  shows "dround (t - 1) = Fin (t - 1)"
proof (rule dround_exact)
  have t: "round_mag t = t" using assms dround_fixed_iff[of t] by simp
  have "round_mag (t - 1) = t - 1" using t assms(2,3) by (rule round_mag_minus_one)
  then show "round_mag \<bar>t - 1\<bar> = \<bar>t - 1\<bar>" using assms(2) by simp
  have "t - 1 < 2 ^ 53" using assms(3) by simp
  also have "(2::rat) ^ 53 < 2 ^ 1024" by simp
  finally show "\<bar>t - 1\<bar> < 2 ^ 1024" using assms(2) by simp
qed

lemma dround_nonpos:
  assumes "x \<le> 0"
  shows "dround x = NInf \<or> (\<exists>v. dround x = Fin v \<and> v \<le> 0)"
proof (cases "2 ^ 1024 \<le> round_mag \<bar>x\<bar>")
  case True
  then show ?thesis using assms by (simp add: dround_def)
next
  case False
  then have "dround x = Fin (sgn x * round_mag \<bar>x\<bar>)" by (simp add: dround_def)
  moreover have "sgn x * round_mag \<bar>x\<bar> \<le> 0"
    using assms round_mag_nonneg[of "\<bar>x\<bar>"] by (simp add: sgn_if mult_le_0_iff)
  ultimately show ?thesis by simp
qed

lemma dround_numeral [simp]:
  "dround 1 = Fin 1" "dround 9 = Fin 9" "dround 10 = Fin 10" "dround (- 10) = Fin (- 10)"
  "dround (- 1) = Fin (- 1)" "dround 5 = Fin 5" "dround 4 = Fin 4" "dround 50 = Fin 50"
  using dround_int[of 1] dround_int[of 9] dround_int[of 10] dround_int[of "- 10"]
    dround_int[of "- 1"] dround_int[of 5] dround_int[of 4] dround_int[of 50]
  by simp_all

section \<open>The token bucket\<close>

text \<open>
  The values of type \<^verbatim>\<open>double\<close>: among the rationals, those that rounding leaves as
  they are.
\<close>

definition is_double :: "double \<Rightarrow> bool" where
  "is_double d = (case d of Fin v \<Rightarrow> dround v = Fin v | _ \<Rightarrow> True)"

lemma is_double_dround: "is_double (dround x)"
  by (cases "dround x") (simp_all add: is_double_def dround_idem)

lemma is_double_dadd: "is_double (dadd x y)"
  by (cases x; cases y) (simp_all add: is_double_dround, simp_all add: is_double_def)

lemma dlt_irrefl [simp]: "\<not> dlt x x"
  by (cases x) simp_all

lemma dlt_Fin_mono: "\<not> dlt b (Fin t) \<Longrightarrow> v \<le> t \<Longrightarrow> \<not> dlt b (Fin v)"
  by (cases b) simp_all

text \<open>
  The tokens of an entry after the refill of \<^verbatim>\<open>token_bucket_allow\<close>: the old tokens plus
  elapsed time times rate, cut off at the burst.
\<close>

definition refill :: "rate_limiter_t \<Rightarrow> RateEntry \<Rightarrow> int \<Rightarrow> double" where
  "refill l e now =
     (let t1 = dadd (tokens e) (dmul (d_of_int (now - last_update e)) (rate l))
      in if dgt t1 (burst l) then burst l else t1)"

lemma refill_bound: "\<not> dgt (refill l e now) (burst l)"
  by (simp add: refill_def Let_def dgt_def)

lemma is_double_refill: "is_double (burst l) \<Longrightarrow> is_double (refill l e now)"
  by (simp add: refill_def Let_def is_double_dadd)

lemma token_bucket_allow_refill:
  "token_bucket_allow l e now =
     (if dge (refill l e now) (Fin 1)
      then (e\<lparr>tokens := dsub (refill l e now) (Fin 1), last_update := now\<rparr>, 1)
      else (e\<lparr>tokens := refill l e now, last_update := now\<rparr>, 0))"
  by (simp add: token_bucket_allow_def refill_def Let_def)

lemma dsub_one_bound:
  assumes d: "is_double x" and ge: "dge x (Fin 1)" and b: "\<not> dgt x y"
  shows "\<not> dgt (dsub x (Fin 1)) y"
proof (cases x)
  case (Fin t)
  then have t: "dround t = Fin t" "1 \<le> t" using d ge by (simp_all add: is_double_def dge_def)
  have "\<exists>v. dround (t - 1) = Fin v \<and> 0 \<le> v \<and> v \<le> t"
    using t by (intro dround_le) simp_all
  then obtain v where v: "dround (t - 1) = Fin v" "v \<le> t" by blast
  have "\<not> dlt y (Fin t)" using b Fin by (simp add: dgt_def)
  then have "\<not> dlt y (Fin v)" using v(2) by (rule dlt_Fin_mono)
  then show ?thesis using Fin v(1) by (simp add: dsub_def dgt_def)
next
  case PInf
  then show ?thesis using b by (simp add: dsub_def)
next
  case NInf
  then show ?thesis using ge by (simp add: dge_def)
next
  case NaN
  then show ?thesis using ge by (simp add: dge_def)
qed

lemma token_bucket_allow_bound:
  assumes "is_double (burst l)"
  shows "\<not> dgt (tokens (fst (token_bucket_allow l e now))) (burst l)"
proof (cases "dge (refill l e now) (Fin 1)")
  case True
  then show ?thesis
    using dsub_one_bound[OF is_double_refill[OF assms] True refill_bound]
    by (simp add: token_bucket_allow_refill)
next
  case False
  then show ?thesis using refill_bound by (simp add: token_bucket_allow_refill)
qed

lemma token_bucket_run_bound:
  assumes "is_double (burst l)"
  shows "\<not> dgt (tokens e) (burst l) \<Longrightarrow> \<not> dgt (tokens (token_bucket_run l e nows)) (burst l)"
  by (induction nows arbitrary: e) (simp_all add: token_bucket_allow_bound[OF assms])

text \<open>
  C6, as the code has it, for a burst that is a \<^verbatim>\<open>double\<close>. After a call of
  \<^verbatim>\<open>token_bucket_allow\<close> the tokens of the entry do not exceed the burst. A call that
  admits returns 1 and leaves the refilled tokens less 1.0 as double precision has it;
  that is exactly 1 less when the refilled tokens are below \<open>2\<^sup>5\<^sup>3\<close>. A call that
  denies leaves the refilled tokens. After any sequence of calls the tokens do not exceed
  the burst, from an entry within the burst (a new entry holds exactly the burst) and,
  once a call was made, from any entry.
\<close>

theorem token_bucket_never_exceeds_burst:
  assumes dbl: "is_double (burst l)"
  shows
  "\<not> dgt (tokens (fst (token_bucket_allow l e now))) (burst l) \<and>
   (snd (token_bucket_allow l e now) \<noteq> 0 \<longrightarrow>
      snd (token_bucket_allow l e now) = 1 \<and>
      tokens (fst (token_bucket_allow l e now)) = dsub (refill l e now) (Fin 1) \<and>
      (\<forall>t. refill l e now = Fin t \<and> t < 2 ^ 53 \<longrightarrow>
           tokens (fst (token_bucket_allow l e now)) = Fin (t - 1))) \<and>
   (snd (token_bucket_allow l e now) = 0 \<longrightarrow>
      tokens (fst (token_bucket_allow l e now)) = refill l e now) \<and>
   (nows \<noteq> [] \<or> \<not> dgt (tokens e) (burst l) \<longrightarrow>
      \<not> dgt (tokens (token_bucket_run l e nows)) (burst l))"
proof (intro conjI impI allI)
  show "\<not> dgt (tokens (fst (token_bucket_allow l e now))) (burst l)"
    using dbl by (rule token_bucket_allow_bound)
next
  assume a: "snd (token_bucket_allow l e now) \<noteq> 0"
  then have ge: "dge (refill l e now) (Fin 1)"
    by (simp add: token_bucket_allow_refill split: if_splits)
  show "snd (token_bucket_allow l e now) = 1"
    using ge by (simp add: token_bucket_allow_refill)
  show tk: "tokens (fst (token_bucket_allow l e now)) = dsub (refill l e now) (Fin 1)"
    using ge by (simp add: token_bucket_allow_refill)
  fix t assume t: "refill l e now = Fin t \<and> t < 2 ^ 53"
  have "dround t = Fin t" using is_double_refill[OF dbl, of e now] t by (simp add: is_double_def)
  moreover have "1 \<le> t" using ge t by (simp add: dge_def)
  ultimately have "dround (t - 1) = Fin (t - 1)" using t by (intro dround_minus_one) simp_all
  then show "tokens (fst (token_bucket_allow l e now)) = Fin (t - 1)"
    using tk t by (simp add: dsub_def)
next
  assume "snd (token_bucket_allow l e now) = 0"
  then show "tokens (fst (token_bucket_allow l e now)) = refill l e now"
    by (simp add: token_bucket_allow_refill split: if_splits)
next
  assume a: "nows \<noteq> [] \<or> \<not> dgt (tokens e) (burst l)"
  show "\<not> dgt (tokens (token_bucket_run l e nows)) (burst l)"
  proof (cases nows)
    case Nil
    with a show ?thesis by simp
  next
    case (Cons t ts)
    then show ?thesis
      using token_bucket_run_bound[OF dbl token_bucket_allow_bound[OF dbl], of e t ts] by simp
  qed
qed

text \<open>A limiter of rate 10 and burst 10, and a full entry last updated at second 100.\<close>

definition tb_limiter :: rate_limiter_t where
  "tb_limiter = rate_limiter_create RATE_TOKEN_BUCKET (Fin 10) (Fin 10)"

definition tb_entry :: RateEntry where
  "tb_entry = \<lparr>key = ''10.0.0.1'', tokens = Fin 10, window_count = 0, window_start = 100,
               last_update = 100\<rparr>"

lemma refill_tb: "refill tb_limiter tb_entry 100 = Fin 10"
  by (simp add: refill_def tb_limiter_def tb_entry_def rate_limiter_create_def d_of_int_def
      dgt_def)

theorem token_bucket_never_exceeds_burst_witness:
  "snd (token_bucket_allow tb_limiter tb_entry 100) = 1 \<and>
   tokens (fst (token_bucket_allow tb_limiter tb_entry 100)) = Fin 9 \<and>
   \<not> dgt (tokens (token_bucket_run tb_limiter tb_entry [100, 100, 101])) (Fin 10)"
proof -
  have d: "is_double (burst tb_limiter)"
    by (simp add: tb_limiter_def rate_limiter_create_def is_double_def)
  have a: "snd (token_bucket_allow tb_limiter tb_entry 100) \<noteq> 0"
    by (simp add: token_bucket_allow_refill refill_tb dge_def)
  have b: "burst tb_limiter = Fin 10" by (simp add: tb_limiter_def rate_limiter_create_def)
  have c: "[100, 100, 101] \<noteq> ([] :: int list)" by simp
  show ?thesis
    using token_bucket_never_exceeds_burst[OF d, of tb_entry 100 "[100, 100, 101]"] a c
    by (simp add: refill_tb b dsub_def)
qed

text \<open>
  A limiter of rate 10 and burst \<open>10\<^sup>1\<^sup>7\<close>, and a full entry. Around \<open>10\<^sup>1\<^sup>7\<close> the doubles
  are 16 apart.
\<close>

definition big_limiter :: rate_limiter_t where
  "big_limiter = rate_limiter_create RATE_TOKEN_BUCKET (Fin 10) (Fin 100000000000000000)"

definition big_entry :: RateEntry where
  "big_entry = \<lparr>key = ''10.0.0.1'', tokens = Fin 100000000000000000, window_count = 0,
                window_start = 100, last_update = 100\<rparr>"

lemma dround_1e17: "dround 100000000000000000 = Fin 100000000000000000"
  using dround_repr[of 100000000000000000 762939453125 17] by simp

lemma dround_1e17_less_1: "dround 99999999999999999 = Fin 100000000000000000"
  using dround_near[of 56 99999999999999999 6250000000000000] by simp

text \<open>
  C6 as the specification states it fails: the call admits and the tokens are what they
  were, not 1 less.
\<close>

theorem token_bucket_decrement_lost:
  "tokens big_entry = burst big_limiter \<and>
   refill big_limiter big_entry 100 = Fin 100000000000000000 \<and>
   snd (token_bucket_allow big_limiter big_entry 100) = 1 \<and>
   tokens (fst (token_bucket_allow big_limiter big_entry 100)) = Fin 100000000000000000"
proof -
  have r: "refill big_limiter big_entry 100 = Fin 100000000000000000"
    by (simp add: refill_def big_limiter_def big_entry_def rate_limiter_create_def d_of_int_def
      dgt_def dround_1e17)
  show ?thesis
    by (simp add: token_bucket_allow_refill r dge_def dsub_def dround_1e17_less_1)
      (simp add: big_limiter_def big_entry_def rate_limiter_create_def)
qed

section \<open>The sliding window\<close>

text \<open>
  The specification's account of \<^verbatim>\<open>sliding_window_allow\<close>, with the arithmetic in double
  precision: the weight of the window that has passed, the count carried over, and the
  test for admission.
\<close>

definition sw_weight :: "rate_limiter_t \<Rightarrow> RateEntry \<Rightarrow> int \<Rightarrow> double" where
  "sw_weight l e now =
     (let w = dsub (Fin 1)
                (ddiv (d_of_int (now - window_start e - window_size l))
                      (d_of_int (window_size l)))
      in if dlt w (Fin 0) then Fin 0 else w)"

definition sw_carried :: "rate_limiter_t \<Rightarrow> RateEntry \<Rightarrow> int \<Rightarrow> int" where
  "sw_carried l e now =
     (if window_size l \<le> now - window_start e
      then d_to_long (dmul (d_of_int (window_count e)) (sw_weight l e now))
      else window_count e)"

definition sw_admits :: "rate_limiter_t \<Rightarrow> int \<Rightarrow> bool" where
  "sw_admits l c = dlt (d_of_int c) (dmul (rate l) (d_of_int (window_size l)))"

text \<open>The weight and the carried count in the specification's words, in exact arithmetic.\<close>

definition spec_weight :: "int \<Rightarrow> int \<Rightarrow> int \<Rightarrow> rat" where
  "spec_weight now start wsize =
     max 0 (min 1 (1 - of_int (now - start - wsize) / of_int wsize))"

definition spec_carried :: "int \<Rightarrow> int \<Rightarrow> int \<Rightarrow> int \<Rightarrow> int" where
  "spec_carried cnt now start wsize = \<lfloor>spec_weight now start wsize * of_int cnt\<rfloor>"

lemma sliding_window_allow_eq:
  "sliding_window_allow l e now =
     (e\<lparr>window_count := (if sw_admits l (sw_carried l e now)
                          then wrap64 (sw_carried l e now + 1) else sw_carried l e now),
        window_start := (if window_size l \<le> now - window_start e then now else window_start e)\<rparr>,
      if sw_admits l (sw_carried l e now) then 1 else 0)"
  by (simp add: sliding_window_allow_def sw_carried_def sw_weight_def sw_admits_def Let_def)

lemma sw_weight_unit:
  assumes ws: "0 < window_size l" "window_size l \<le> 2147483647"
    and passed: "window_size l \<le> now - window_start e"
  shows "\<exists>w. sw_weight l e now = Fin w \<and> 0 \<le> w \<and> w \<le> 1"
proof -
  let ?d = "now - window_start e - window_size l"
  let ?s = "window_size l"
  have s: "d_of_int ?s = Fin (of_int ?s)"
    unfolding d_of_int_def using ws by (intro dround_int) simp
  have s0: "(0::rat) < of_int ?s" using ws by simp
  have d0: "(0::rat) \<le> of_int ?d" using passed by simp
  have one: "dround 1 = Fin 1" by simp
  have q: "ddiv (d_of_int ?d) (d_of_int ?s) = PInf \<or>
           (\<exists>q. ddiv (d_of_int ?d) (d_of_int ?s) = Fin q \<and> 0 \<le> q)"
  proof -
    have "dround (of_int ?d) = PInf \<or> (\<exists>v. dround (of_int ?d) = Fin v \<and> 0 \<le> v)"
      using d0 by (rule dround_nonneg)
    then show ?thesis
    proof
      assume "dround (of_int ?d) = PInf"
      then show ?thesis using s s0 by (simp add: d_of_int_def)
    next
      assume "\<exists>v. dround (of_int ?d) = Fin v \<and> 0 \<le> v"
      then obtain v where v: "dround (of_int ?d) = Fin v" "0 \<le> v" by blast
      have "dround (v / of_int ?s) = PInf \<or> (\<exists>q. dround (v / of_int ?s) = Fin q \<and> 0 \<le> q)"
        using v(2) s0 by (intro dround_nonneg) simp
      then show ?thesis using v(1) s s0 by (simp add: d_of_int_def)
    qed
  qed
  from q show ?thesis
  proof
    assume "ddiv (d_of_int ?d) (d_of_int ?s) = PInf"
    then show ?thesis by (simp add: sw_weight_def dsub_def)
  next
    assume "\<exists>q. ddiv (d_of_int ?d) (d_of_int ?s) = Fin q \<and> 0 \<le> q"
    then obtain q where q: "ddiv (d_of_int ?d) (d_of_int ?s) = Fin q" "0 \<le> q" by blast
    have w0: "dsub (Fin 1) (ddiv (d_of_int ?d) (d_of_int ?s)) = dround (1 - q)"
      using q(1) by (simp add: dsub_def)
    show ?thesis
    proof (cases "0 \<le> 1 - q")
      case True
      have "\<exists>v. dround (1 - q) = Fin v \<and> 0 \<le> v \<and> v \<le> 1"
        using True q(2) one by (intro dround_le) simp_all
      then obtain v where v: "dround (1 - q) = Fin v" "0 \<le> v" "v \<le> 1" by blast
      then show ?thesis using w0 by (simp add: sw_weight_def)
    next
      case False
      then have "dround (1 - q) = NInf \<or> (\<exists>v. dround (1 - q) = Fin v \<and> v \<le> 0)"
        by (intro dround_nonpos) simp
      then show ?thesis
      proof
        assume "dround (1 - q) = NInf"
        then show ?thesis using w0 by (simp add: sw_weight_def)
      next
        assume "\<exists>v. dround (1 - q) = Fin v \<and> v \<le> 0"
        then obtain v where v: "dround (1 - q) = Fin v" "v \<le> 0" by blast
        then show ?thesis using w0 by (cases "v < 0") (simp_all add: sw_weight_def)
      qed
    qed
  qed
qed

lemma sw_carried_bounds:
  assumes ws: "0 < window_size l" "window_size l \<le> 2147483647"
    and passed: "window_size l \<le> now - window_start e"
    and cnt: "0 \<le> window_count e" "window_count e < 2 ^ 53"
  shows "0 \<le> sw_carried l e now \<and> sw_carried l e now \<le> window_count e"
proof -
  obtain w where w: "sw_weight l e now = Fin w" "0 \<le> w" "w \<le> 1"
    using sw_weight_unit[OF ws passed] by blast
  let ?c = "window_count e"
  have c: "dround (of_int ?c) = Fin (of_int ?c)" using cnt by (intro dround_int) simp
  have "of_int ?c * w \<le> of_int ?c * 1" using cnt(1) w(3) by (intro mult_left_mono) simp_all
  then have le: "of_int ?c * w \<le> (of_int ?c :: rat)" by simp
  have "(0::rat) \<le> of_int ?c * w" using cnt(1) w(2) by simp
  from dround_le[OF this le c] obtain p where
    p: "dround (of_int ?c * w) = Fin p" "0 \<le> p" "p \<le> of_int ?c" by blast
  have fl: "0 \<le> \<lfloor>p\<rfloor>" "\<lfloor>p\<rfloor> \<le> ?c" using p(2,3) by (simp_all add: floor_le_iff le_floor_iff)
  have ct: "c_trunc p = \<lfloor>p\<rfloor>" using p(2) by (simp add: c_trunc_def)
  have c53: "window_count e < 9007199254740992" using cnt(2) by simp
  have "- 9223372036854775808 \<le> c_trunc p \<and> c_trunc p \<le> 9223372036854775807"
    unfolding ct using fl c53 by linarith
  then have "d_to_long (Fin p) = c_trunc p"
    by (simp only: d_to_long_def double.case simp_thms if_True)
  then have "d_to_long (Fin p) = \<lfloor>p\<rfloor>" using ct by simp
  then have "sw_carried l e now = \<lfloor>p\<rfloor>"
    using passed w(1) c p(1) by (simp add: sw_carried_def d_of_int_def)
  then show ?thesis using fl by simp
qed

text \<open>
  C8, as the code has it. \<^verbatim>\<open>sliding_window_allow\<close> admits exactly when the count, carried
  over if the window has passed, is below \<^verbatim>\<open>rate * window_size\<close> as double precision has
  it, and then counts the request; it sets \<open>window_start\<close> to \<open>now\<close> exactly when the window
  has passed. The count carried over is the product of the old count and the weight
  \<open>1 - (now - window_start - window_size) / window_size\<close>, each operation rounded to
  double precision, the weight raised to 0 when below, the product truncated. For a
  window size above 0 and an old count from 0 to below \<open>2\<^sup>5\<^sup>3\<close> the weight lies between 0
  and 1 and the count carried over between 0 and the old count.
\<close>

theorem sliding_window_carry:
  "sliding_window_allow l e now =
     (e\<lparr>window_count := (if sw_admits l (sw_carried l e now)
                          then wrap64 (sw_carried l e now + 1) else sw_carried l e now),
        window_start := (if window_size l \<le> now - window_start e then now else window_start e)\<rparr>,
      if sw_admits l (sw_carried l e now) then 1 else 0) \<and>
   (0 < window_size l \<and> window_size l \<le> 2147483647 \<and>
    window_size l \<le> now - window_start e \<and> 0 \<le> window_count e \<and> window_count e < 2 ^ 53 \<longrightarrow>
      (\<exists>w. sw_weight l e now = Fin w \<and> 0 \<le> w \<and> w \<le> 1) \<and>
      0 \<le> sw_carried l e now \<and> sw_carried l e now \<le> window_count e)"
  using sliding_window_allow_eq sw_weight_unit sw_carried_bounds by blast

text \<open>
  A window of 5 seconds that started at second 100 and counted 5 requests; the next call
  comes at second 109.
\<close>

definition sw_limiter :: rate_limiter_t where
  "sw_limiter = rate_limiter_create RATE_SLIDING_WINDOW (Fin 10) (Fin 5)"

definition sw_entry :: RateEntry where
  "sw_entry = \<lparr>key = ''10.0.0.1'', tokens = Fin 5, window_count = 5, window_start = 100,
               last_update = 100\<rparr>"

lemma dround_4_5: "dround (4 / 5) = Fin (3602879701896397 / 4503599627370496)"
  using dround_near[of "- 1" "4 / 5" 7205759403792794] by simp

lemma dround_1_5: "dround (900719925474099 / 4503599627370496) = Fin (900719925474099 / 4503599627370496)"
  using dround_repr[of "900719925474099 / 4503599627370496" 900719925474099 "- 52"] by simp

lemma dround_5_5: "dround (4503599627370495 / 4503599627370496) = Fin (4503599627370495 / 4503599627370496)"
  using dround_repr[of "4503599627370495 / 4503599627370496" 4503599627370495 "- 52"] by simp

lemma window_size_sw_limiter: "window_size sw_limiter = 5"
  by (simp add: sw_limiter_def rate_limiter_create_def d_to_int_def c_trunc_def)

lemma sw_weight_ex: "sw_weight sw_limiter sw_entry 109 = Fin (900719925474099 / 4503599627370496)"
  by (simp add: sw_weight_def window_size_sw_limiter sw_entry_def d_of_int_def dround_4_5
      dsub_def dround_1_5)

lemma floor_5_5: "\<lfloor>4503599627370495 / 4503599627370496 :: rat\<rfloor> = 0"
  by (rule floor_unique) simp_all

lemma sw_carried_ex: "sw_carried sw_limiter sw_entry 109 = 0"
  by (simp add: sw_carried_def sw_weight_ex window_size_sw_limiter)
    (simp add: sw_entry_def d_of_int_def dround_5_5 d_to_long_def c_trunc_def floor_5_5)

theorem sliding_window_carry_witness:
  "sliding_window_allow sw_limiter sw_entry 109
     = (sw_entry\<lparr>window_count := 1, window_start := 109\<rparr>, 1) \<and>
   sw_weight sw_limiter sw_entry 109 = Fin (900719925474099 / 4503599627370496) \<and>
   0 \<le> sw_carried sw_limiter sw_entry 109 \<and> sw_carried sw_limiter sw_entry 109 \<le> 5"
proof -
  have h: "0 < window_size sw_limiter \<and> window_size sw_limiter \<le> 2147483647 \<and>
    window_size sw_limiter \<le> 109 - window_start sw_entry \<and> 0 \<le> window_count sw_entry \<and>
    window_count sw_entry < 2 ^ 53"
    by (simp add: window_size_sw_limiter) (simp add: sw_entry_def)
  have a: "sw_admits sw_limiter 0"
    by (simp add: sw_admits_def window_size_sw_limiter d_of_int_def)
      (simp add: sw_limiter_def rate_limiter_create_def)
  have c: "window_count sw_entry = 5" "window_start sw_entry = 100" by (simp_all add: sw_entry_def)
  show ?thesis
    using sliding_window_carry[of sw_limiter sw_entry 109] h
    by (simp add: sw_carried_ex a window_size_sw_limiter wrap64_def sw_weight_ex c)
qed

text \<open>
  C8 as the specification states it fails. The weight is \<open>1 - 4 / 5\<close>, and the
  specification carries \<open>\<lfloor>5 \<sqdot> 1 / 5\<rfloor> = 1\<close> request over. The code rounds \<open>4 / 5\<close> up, so
  its weight is below \<open>1 / 5\<close>, its product below 1, and it carries nothing over: after
  the call is admitted the count is 1, not 2.
\<close>

theorem sliding_window_carries_less:
  "window_size sw_limiter = 5 \<and> window_count sw_entry = 5 \<and> window_start sw_entry = 100 \<and>
   sliding_window_allow sw_limiter sw_entry 109
     = (sw_entry\<lparr>window_count := 0 + 1, window_start := 109\<rparr>, 1) \<and>
   spec_weight 109 100 5 = 1 / 5 \<and>
   spec_carried 5 109 100 5 = 1"
proof -
  have a: "sw_admits sw_limiter 0"
    by (simp add: sw_admits_def window_size_sw_limiter d_of_int_def)
      (simp add: sw_limiter_def rate_limiter_create_def)
  have "sliding_window_allow sw_limiter sw_entry 109
     = (sw_entry\<lparr>window_count := 0 + 1, window_start := 109\<rparr>, 1)"
    by (simp add: sliding_window_allow_eq sw_carried_ex a window_size_sw_limiter wrap64_def)
      (simp add: sw_entry_def)
  moreover have "spec_weight 109 100 5 = 1 / 5" by (simp add: spec_weight_def)
  moreover have "spec_carried 5 109 100 5 = 1" by (simp add: spec_carried_def spec_weight_def)
  ultimately show ?thesis by (simp add: window_size_sw_limiter sw_entry_def)
qed

section \<open>The first call for a new key\<close>

text \<open>The readings of the clock are values of type \<^verbatim>\<open>time_t\<close>, of 64 bits.\<close>

definition is_time_t :: "int \<Rightarrow> bool" where
  "is_time_t t \<longleftrightarrow> - 9223372036854775808 \<le> t \<and> t \<le> 9223372036854775807"

lemma d_of_int_elapsed:
  assumes "is_time_t a" "is_time_t b" "a \<le> b"
  shows "\<exists>v. d_of_int (b - a) = Fin v \<and> 0 \<le> v"
proof -
  have y: "dround (2 ^ 64) = Fin (2 ^ 64)"
    using dround_repr[of "2 ^ 64" 1 64] by simp
  have "b - a \<le> 2 ^ 64" using assms by (simp add: is_time_t_def)
  then have "(of_int (b - a) :: rat) \<le> of_int (2 ^ 64)" by (simp only: of_int_le_iff)
  then have le: "(of_int (b - a) :: rat) \<le> 2 ^ 64" by simp
  have "(0 :: rat) \<le> of_int (b - a)" using assms(3) by simp
  from dround_le[OF this le y] show ?thesis by (auto simp: d_of_int_def)
qed

text \<open>
  With a finite rate that is not negative and a clock that did not run backwards, the
  refill of a full entry leaves it full.
\<close>

lemma refill_full:
  assumes dbl: "is_double (burst l)" and ge: "dge (burst l) (Fin 1)"
    and full: "tokens e = burst l"
    and rate: "rate l = Fin r" "0 \<le> r"
    and clock: "is_time_t (last_update e)" "is_time_t now" "last_update e \<le> now"
  shows "refill l e now = burst l"
proof -
  obtain v where v: "d_of_int (now - last_update e) = Fin v" "0 \<le> v"
    using d_of_int_elapsed[OF clock] by blast
  have p: "dround (v * r) = PInf \<or> (\<exists>p. dround (v * r) = Fin p \<and> 0 \<le> p)"
    using v(2) rate(2) by (intro dround_nonneg) simp
  show ?thesis
  proof (cases "burst l")
    case (Fin b)
    then have b: "dround b = Fin b" "1 \<le> b" using dbl ge by (simp_all add: is_double_def dge_def)
    from p show ?thesis
    proof
      assume "dround (v * r) = PInf"
      then show ?thesis using Fin full v rate by (simp add: refill_def dgt_def)
    next
      assume "\<exists>p. dround (v * r) = Fin p \<and> 0 \<le> p"
      then obtain p where pp: "dround (v * r) = Fin p" "0 \<le> p" by blast
      have "dround (b + p) = PInf \<or> (\<exists>t. dround (b + p) = Fin t \<and> b \<le> t)"
        using b pp(2) by (intro dround_ge) simp_all
      then show ?thesis
      proof
        assume "dround (b + p) = PInf"
        then show ?thesis using Fin full v rate pp by (simp add: refill_def dgt_def)
      next
        assume "\<exists>t. dround (b + p) = Fin t \<and> b \<le> t"
        then obtain t where t: "dround (b + p) = Fin t" "b \<le> t" by blast
        then show ?thesis using Fin full v rate pp by (cases "b < t") (simp_all add: refill_def dgt_def)
      qed
    qed
  next
    case PInf
    from p show ?thesis
      using PInf full v rate by (auto simp: refill_def dgt_def)
  next
    case NInf
    then show ?thesis using ge by (simp add: dge_def)
  next
    case NaN
    then show ?thesis using ge by (simp add: dge_def)
  qed
qed

text \<open>
  C10, as the code has it. In token-bucket mode with a burst of at least 1, a finite rate
  that is not negative and a clock that does not run backwards between the creation of
  the entry and the refill, the call of \<^verbatim>\<open>rate_limiter_allow\<close> for a key that has no
  entry yet is admitted whenever it passes the global cap. When the allocation succeeds
  \<^verbatim>\<open>find_or_create_entry\<close> puts a new entry at the head of the chain of the key with
  tokens equal to the burst, and the call leaves that entry with the burst less 1.0; when
  it fails the call admits and the table is as it was.
\<close>

theorem first_allow_admitted:
  assumes alg: "rl_algorithm l = RATE_TOKEN_BUCKET"
    and burst: "dge (burst l) (Fin 1)" and dbl: "is_double (burst l)"
    and new: "chain_find (buckets l (hash_key k)) k = None"
    and cap: "\<not> (global_limit l > 0 \<and>
                 global_limit l \<le> (if t_global env \<noteq> global_window_start l then 0
                                     else global_count l))"
    and rate: "rate l = Fin r" "0 \<le> r"
    and clock: "is_time_t (t_last_update env)" "is_time_t (t_now env)"
      "t_last_update env \<le> t_now env"
  shows "snd (rate_limiter_allow l k env) = 1 \<and>
    (calloc_ok env \<longrightarrow>
       (\<exists>l'. find_or_create_entry l k True (t_last_update env) (t_window_start env)
                = (l', Some (hash_key k, 0)) \<and>
              tokens (buckets l' (hash_key k) ! 0) = burst l) \<and>
       buckets (fst (rate_limiter_allow l k env)) (hash_key k) =
         \<lparr>key = take 63 k, tokens = dsub (burst l) (Fin 1), window_count = 0,
          window_start = t_window_start env, last_update = t_now env\<rparr>
         # buckets l (hash_key k)) \<and>
    (\<not> calloc_ok env \<longrightarrow> buckets (fst (rate_limiter_allow l k env)) = buckets l)"
proof -
  let ?l1 = "if global_limit l > 0 \<and> t_global env \<noteq> global_window_start l
             then l\<lparr>global_count := 0, global_window_start := t_global env\<rparr> else l"
  have pass: "\<not> (global_limit ?l1 > 0 \<and> global_count ?l1 \<ge> global_limit ?l1)"
    using cap by (auto split: if_splits)
  have l1: "rl_algorithm ?l1 = RATE_TOKEN_BUCKET" "burst ?l1 = burst l" "rate ?l1 = rate l"
    "buckets ?l1 = buckets l"
    using alg by simp_all
  have new1: "chain_find (buckets ?l1 (hash_key k)) k = None" using new l1(4) by simp
  show ?thesis
  proof (cases "calloc_ok env")
    case False
    have "find_or_create_entry ?l1 k (calloc_ok env) (t_last_update env) (t_window_start env)
            = (?l1, None)"
      using new1 False by (simp add: find_or_create_entry_def Let_def)
    then have "rate_limiter_allow l k env = (?l1, 1)"
      using pass by (simp add: rate_limiter_allow_def Let_def)
    then show ?thesis using False l1(4) by simp
  next
    case True
    let ?e = "\<lparr>key = take 63 k, tokens = burst l, window_count = 0,
               window_start = t_window_start env, last_update = t_last_update env\<rparr>"
    let ?l2 = "?l1\<lparr>buckets := (buckets l)(hash_key k := ?e # buckets l (hash_key k))\<rparr>"
    let ?e' = "?e\<lparr>tokens := dsub (burst l) (Fin 1), last_update := t_now env\<rparr>"
    let ?l3 = "?l2\<lparr>buckets := (buckets ?l2)(hash_key k := (buckets ?l2 (hash_key k))[0 := ?e'])\<rparr>"
    have f: "find_or_create_entry ?l1 k (calloc_ok env) (t_last_update env) (t_window_start env)
            = (?l2, Some (hash_key k, 0))"
      using new1 True l1 by (simp add: find_or_create_entry_def Let_def)
    have f0: "\<exists>l'. find_or_create_entry l k True (t_last_update env) (t_window_start env)
                = (l', Some (hash_key k, 0)) \<and>
              tokens (buckets l' (hash_key k) ! 0) = burst l"
      using new by (simp add: find_or_create_entry_def Let_def)
    have e: "buckets ?l2 (hash_key k) ! 0 = ?e" by simp
    have l2: "burst ?l2 = burst l" "rate ?l2 = Fin r" "rl_algorithm ?l2 = RATE_TOKEN_BUCKET"
      using alg rate(1) by simp_all
    have r: "refill ?l2 ?e (t_now env) = burst l"
      using refill_full[of ?l2 ?e r "t_now env"] dbl burst rate(2) clock l2 by simp
    have tb: "token_bucket_allow ?l2 ?e (t_now env) = (?e', 1)"
      using burst by (simp add: token_bucket_allow_refill r)
    have res: "rate_limiter_allow l k env
        = (?l3\<lparr>allowed := allowed ?l3 + 1, global_count := wrap64 (global_count ?l3 + 1)\<rparr>, 1)"
      unfolding rate_limiter_allow_def Let_def
      using pass f e tb l2(3)
      by (simp only: if_False prod.case option.case RateLimitAlgorithm.case simp_thms fst_conv
          snd_conv) simp
    show ?thesis using True f0 by (simp add: res)
  qed
qed

text \<open>A call at second 100 whose allocation succeeds.\<close>

definition env_100 :: allow_env where
  "env_100 = \<lparr>t_global = 100, calloc_ok = True, t_last_update = 100, t_window_start = 100,
              t_now = 100\<rparr>"

theorem first_allow_admitted_witness:
  "snd (rate_limiter_allow (rate_limiter_create RATE_TOKEN_BUCKET (Fin 10) (Fin 1))
          ''10.0.0.1'' env_100) = 1 \<and>
   buckets (fst (rate_limiter_allow (rate_limiter_create RATE_TOKEN_BUCKET (Fin 10) (Fin 1))
          ''10.0.0.1'' env_100)) (hash_key ''10.0.0.1'') =
     [\<lparr>key = ''10.0.0.1'', tokens = Fin 0, window_count = 0, window_start = 100,
       last_update = 100\<rparr>]"
proof -
  let ?l = "rate_limiter_create RATE_TOKEN_BUCKET (Fin 10) (Fin 1)"
  have h: "rl_algorithm ?l = RATE_TOKEN_BUCKET" "dge (burst ?l) (Fin 1)" "is_double (burst ?l)"
    "chain_find (buckets ?l (hash_key ''10.0.0.1'')) ''10.0.0.1'' = None"
    "\<not> (global_limit ?l > 0 \<and>
         global_limit ?l \<le> (if t_global env_100 \<noteq> global_window_start ?l then 0
                              else global_count ?l))"
    "rate ?l = Fin 10" "(0::rat) \<le> 10"
    "is_time_t (t_last_update env_100)" "is_time_t (t_now env_100)"
    "t_last_update env_100 \<le> t_now env_100"
    by (simp_all add: rate_limiter_create_def env_100_def dge_def is_double_def is_time_t_def)
  have c: "calloc_ok env_100" by (simp add: env_100_def)
  show ?thesis
    using first_allow_admitted[OF h] c
    by (simp add: rate_limiter_create_def env_100_def dsub_def)
qed

text \<open>
  A clock set back by a second between the creation of the entry and the refill, and a
  clock that ticks between the two.
\<close>

definition env_back :: allow_env where
  "env_back = \<lparr>t_global = 100, calloc_ok = True, t_last_update = 101, t_window_start = 101,
               t_now = 100\<rparr>"

definition env_tick :: allow_env where
  "env_tick = \<lparr>t_global = 100, calloc_ok = True, t_last_update = 100, t_window_start = 100,
               t_now = 101\<rparr>"

lemma rate_limiter_allow_fresh:
  assumes "global_limit l = 0" "buckets l (hash_key k) = []"
    "rl_algorithm l = RATE_TOKEN_BUCKET" "calloc_ok env"
  shows "snd (rate_limiter_allow l k env) =
     snd (token_bucket_allow l
            \<lparr>key = take 63 k, tokens = burst l, window_count = 0,
             window_start = t_window_start env, last_update = t_last_update env\<rparr> (t_now env))"
  using assms
  by (simp add: rate_limiter_allow_def find_or_create_entry_def Let_def token_bucket_allow_def)

text \<open>
  C10 as the specification states it fails. Each of the three limiters comes from
  \<^verbatim>\<open>rate_limiter_create\<close> with a burst of at least 1, no key has an entry, there is no
  global cap, and the first call is denied: with an infinite rate the refill
  \<open>0 \<sqdot> \<infinity>\<close> is NaN and so are the tokens; with the clock set back the refill takes the
  tokens away; with a negative rate so does the tick of the clock.
\<close>

theorem first_allow_denied:
  "snd (rate_limiter_allow (rate_limiter_create RATE_TOKEN_BUCKET PInf (Fin 10))
          ''10.0.0.1'' env_100) = 0 \<and>
   snd (rate_limiter_allow (rate_limiter_create RATE_TOKEN_BUCKET (Fin 10) (Fin 10))
          ''10.0.0.1'' env_back) = 0 \<and>
   snd (rate_limiter_allow (rate_limiter_create RATE_TOKEN_BUCKET (Fin (- 1)) (Fin 1))
          ''10.0.0.1'' env_tick) = 0"
proof (intro conjI)
  let ?k = "''10.0.0.1''"
  let ?l1 = "rate_limiter_create RATE_TOKEN_BUCKET PInf (Fin 10)"
  let ?l2 = "rate_limiter_create RATE_TOKEN_BUCKET (Fin 10) (Fin 10)"
  let ?l3 = "rate_limiter_create RATE_TOKEN_BUCKET (Fin (- 1)) (Fin 1)"
  have "snd (rate_limiter_allow ?l1 ?k env_100) =
     snd (token_bucket_allow ?l1
            \<lparr>key = take 63 ?k, tokens = burst ?l1, window_count = 0,
             window_start = t_window_start env_100, last_update = t_last_update env_100\<rparr>
            (t_now env_100))"
    by (rule rate_limiter_allow_fresh) (simp_all add: rate_limiter_create_def env_100_def)
  then show "snd (rate_limiter_allow ?l1 ?k env_100) = 0"
    by (simp add: token_bucket_allow_def rate_limiter_create_def env_100_def d_of_int_def
        dgt_def dge_def)
  have "snd (rate_limiter_allow ?l2 ?k env_back) =
     snd (token_bucket_allow ?l2
            \<lparr>key = take 63 ?k, tokens = burst ?l2, window_count = 0,
             window_start = t_window_start env_back, last_update = t_last_update env_back\<rparr>
            (t_now env_back))"
    by (rule rate_limiter_allow_fresh) (simp_all add: rate_limiter_create_def env_back_def)
  then show "snd (rate_limiter_allow ?l2 ?k env_back) = 0"
    by (simp add: token_bucket_allow_def rate_limiter_create_def env_back_def d_of_int_def
        dgt_def dge_def)
  have "snd (rate_limiter_allow ?l3 ?k env_tick) =
     snd (token_bucket_allow ?l3
            \<lparr>key = take 63 ?k, tokens = burst ?l3, window_count = 0,
             window_start = t_window_start env_tick, last_update = t_last_update env_tick\<rparr>
            (t_now env_tick))"
    by (rule rate_limiter_allow_fresh) (simp_all add: rate_limiter_create_def env_tick_def)
  then show "snd (rate_limiter_allow ?l3 ?k env_tick) = 0"
    by (simp add: token_bucket_allow_def rate_limiter_create_def env_tick_def d_of_int_def
        dgt_def dge_def)
qed

end
